theory Spec2Isabelle
  imports Main "HOL-Library.Word"
begin

unbundle bit_operations_syntax

section \<open>The simulated RAM of ptsim.c\<close>

text \<open>
  \<^verbatim>\<open>unsigned char mem[MEM_SIZE]\<close> is a function from C \<^verbatim>\<open>int\<close> indices to bytes.
  Only the indices in \<open>[0, MEM_SIZE)\<close> exist in the C program: an access outside
  them is undefined behaviour, which the model reports as the value
  \<open>Inl OutOfBounds\<close>. The C \<^verbatim>\<open>int\<close>s are modelled as mathematical integers; no
  arithmetic of the program can leave the 32-bit range before an index leaves the
  array (page numbers are bytes, shifted by 8).
\<close>

type_synonym u8 = "8 word"

type_synonym memory = "int \<Rightarrow> u8"

datatype fault = OutOfBounds

definition MEM_SIZE :: int where
  "MEM_SIZE = 16384"

definition PAGE_SIZE :: int where
  "PAGE_SIZE = 256"

definition PAGE_COUNT :: int where
  "PAGE_COUNT = 64"

definition PAGE_SHIFT :: nat where
  "PAGE_SHIFT = 8"

definition mem_read :: "memory \<Rightarrow> int \<Rightarrow> fault + u8" where
  "mem_read mem a = (if 0 \<le> a \<and> a < MEM_SIZE then Inr (mem a) else Inl OutOfBounds)"

definition mem_write :: "memory \<Rightarrow> int \<Rightarrow> u8 \<Rightarrow> fault + memory" where
  "mem_write mem a x = (if 0 \<le> a \<and> a < MEM_SIZE then Inr (mem(a := x)) else Inl OutOfBounds)"

text \<open>\<^verbatim>\<open>return (page << PAGE_SHIFT) | offset;\<close>\<close>

definition get_address :: "int \<Rightarrow> int \<Rightarrow> int" where
  "get_address page offset = push_bit PAGE_SHIFT page OR offset"

text \<open>\<^verbatim>\<open>memset(mem, 0, MEM_SIZE); mem[0] = 1;\<close>\<close>

definition initialize_mem :: memory where
  "initialize_mem = (\<lambda>_. 0)(0 := 1)"

subsection \<open>The page allocator\<close>

text \<open>
  \<^verbatim>\<open>for (int i = 0; i < PAGE_COUNT; i++) if (mem[i] == 0) { mem[i] = 1; return i; }\<close>
  \<^verbatim>\<open>return 0xff;\<close>
  The scan reads and writes only the indices \<open>0 .. PAGE_COUNT - 1\<close>, which are inside
  the array. The result is the \<^verbatim>\<open>unsigned char\<close> returned and the memory left behind.
\<close>

function get_page_scan :: "int \<Rightarrow> memory \<Rightarrow> u8 \<times> memory" where
  "get_page_scan i mem =
     (if i < PAGE_COUNT
      then (if mem i = 0 then (word_of_int i, mem(i := 1)) else get_page_scan (i + 1) mem)
      else (0xff, mem))"
  by pat_completeness auto
termination
  by (relation "measure (\<lambda>(i, mem). nat (PAGE_COUNT - i))") auto

declare get_page_scan.simps [simp del]

definition get_page :: "memory \<Rightarrow> u8 \<times> memory" where
  "get_page mem = get_page_scan 0 mem"

text \<open>\<^verbatim>\<open>void deallocate_page(int page) { mem[page] = 0; }\<close>\<close>

definition deallocate_page :: "memory \<Rightarrow> int \<Rightarrow> fault + memory" where
  "deallocate_page mem page = mem_write mem page 0"

text \<open>A run of \<open>k\<close> consecutive calls of \<^verbatim>\<open>get_page\<close>: the pages returned, in order.\<close>

fun get_pages :: "nat \<Rightarrow> memory \<Rightarrow> u8 list \<times> memory" where
  "get_pages 0 mem = ([], mem)"
| "get_pages (Suc k) mem =
     (case get_page mem of (pg, mem1) \<Rightarrow>
        (case get_pages k mem1 of (pgs, mem2) \<Rightarrow> (pg # pgs, mem2)))"

subsection \<open>Process creation\<close>

text \<open>
  \<^verbatim>\<open>new_process\<close> returns nothing; what it reports is the line it prints. The model
  returns that report: \<open>Created\<close> when nothing is printed, \<open>OOM_page_table\<close> for
  \<^verbatim>\<open>"OOM: proc %d page table"\<close> and \<open>OOM_data_page\<close> for \<^verbatim>\<open>"OOM: proc %d data page"\<close>.
\<close>

datatype np_report = Created | OOM_page_table | OOM_data_page

function new_process_loop :: "int \<Rightarrow> int \<Rightarrow> int \<Rightarrow> memory \<Rightarrow> fault + (np_report \<times> memory)" where
  "new_process_loop page_table page_count vpage mem =
     (if vpage < page_count
      then (case get_page mem of (new_page, mem1) \<Rightarrow>
              if uint new_page = 0xff then Inr (OOM_data_page, mem1)
              else (case mem_write mem1 (get_address page_table vpage) new_page of
                      Inl e \<Rightarrow> Inl e
                    | Inr mem2 \<Rightarrow> new_process_loop page_table page_count (vpage + 1) mem2))
      else Inr (Created, mem))"
  by pat_completeness auto
termination
  by (relation "measure (\<lambda>(page_table, page_count, vpage, mem). nat (page_count - vpage))") auto

declare new_process_loop.simps [simp del]

definition new_process :: "memory \<Rightarrow> int \<Rightarrow> int \<Rightarrow> fault + (np_report \<times> memory)" where
  "new_process mem proc_num page_count =
     (case get_page mem of (pg, mem1) \<Rightarrow>
        let page_table = uint pg in
        if page_table = 0xff then Inr (OOM_page_table, mem1)
        else (case mem_write mem1 (64 + proc_num) (word_of_int page_table) of
                Inl e \<Rightarrow> Inl e
              | Inr mem2 \<Rightarrow> new_process_loop page_table page_count 0 mem2))"

subsection \<open>Address translation\<close>

text \<open>\<^verbatim>\<open>int table_pointer = mem[proc_num + 64];\<close>\<close>

definition get_page_table :: "memory \<Rightarrow> int \<Rightarrow> fault + int" where
  "get_page_table mem proc_num =
     (case mem_read mem (proc_num + 64) of Inl e \<Rightarrow> Inl e | Inr b \<Rightarrow> Inr (uint b))"

text \<open>
  \<^verbatim>\<open>virt_addr >> 8\<close> is the arithmetic shift (floor division by 256) on the
  compilers the program is built with; \<^verbatim>\<open>virt_addr & 255\<close> is the low byte.
\<close>

definition get_physical_addr :: "memory \<Rightarrow> int \<Rightarrow> int \<Rightarrow> fault + int" where
  "get_physical_addr mem proc_num virt_addr =
     (let virt_page = drop_bit 8 virt_addr;
          offset = virt_addr AND 255
      in case get_page_table mem proc_num of
           Inl e \<Rightarrow> Inl e
         | Inr page_table \<Rightarrow>
             (case mem_read mem (get_address page_table virt_page) of
                Inl e \<Rightarrow> Inl e
              | Inr phys_page \<Rightarrow> Inr (push_bit 8 (uint phys_page) OR offset)))"

text \<open>\<^verbatim>\<open>mem[phys_addr] = value;\<close> stores the low byte of the \<^verbatim>\<open>int\<close>.\<close>

definition store_value :: "memory \<Rightarrow> int \<Rightarrow> int \<Rightarrow> int \<Rightarrow> fault + memory" where
  "store_value mem proc_num virt_addr val =
     (case get_physical_addr mem proc_num virt_addr of
        Inl e \<Rightarrow> Inl e
      | Inr phys_addr \<Rightarrow> mem_write mem phys_addr (word_of_int val))"

text \<open>\<^verbatim>\<open>load_value\<close> prints the byte it read; the model returns it.\<close>

definition load_value :: "memory \<Rightarrow> int \<Rightarrow> int \<Rightarrow> fault + int" where
  "load_value mem proc_num virt_addr =
     (case get_physical_addr mem proc_num virt_addr of
        Inl e \<Rightarrow> Inl e
      | Inr phys_addr \<Rightarrow>
          (case mem_read mem phys_addr of Inl e \<Rightarrow> Inl e | Inr b \<Rightarrow> Inr (uint b)))"

subsection \<open>Process teardown\<close>

text \<open>
  \<^verbatim>\<open>for (int i = 0; i < PAGE_COUNT; i++) {\<close>
  \<^verbatim>\<open>  int ptr_addr = get_address(page_table, i);\<close>
  \<^verbatim>\<open>  if (mem[ptr_addr] != 0) deallocate_page(mem[ptr_addr]); }\<close>
\<close>

function kill_process_loop :: "int \<Rightarrow> int \<Rightarrow> memory \<Rightarrow> fault + memory" where
  "kill_process_loop page_table i mem =
     (if i < PAGE_COUNT
      then (case mem_read mem (get_address page_table i) of
              Inl e \<Rightarrow> Inl e
            | Inr b \<Rightarrow>
                if b \<noteq> 0
                then (case deallocate_page mem (uint b) of
                        Inl e \<Rightarrow> Inl e
                      | Inr mem1 \<Rightarrow> kill_process_loop page_table (i + 1) mem1)
                else kill_process_loop page_table (i + 1) mem)
      else Inr mem)"
  by pat_completeness auto
termination
  by (relation "measure (\<lambda>(page_table, i, mem). nat (PAGE_COUNT - i))") auto

declare kill_process_loop.simps [simp del]

definition kill_process :: "memory \<Rightarrow> int \<Rightarrow> fault + memory" where
  "kill_process mem proc_num =
     (case get_page_table mem proc_num of
        Inl e \<Rightarrow> Inl e
      | Inr page_table \<Rightarrow>
          (case kill_process_loop page_table 0 mem of
             Inl e \<Rightarrow> Inl e
           | Inr mem1 \<Rightarrow> deallocate_page mem1 page_table))"

subsection \<open>The command loop of main\<close>

text \<open>
  The commands \<^verbatim>\<open>np\<close>, \<^verbatim>\<open>kp\<close>, \<^verbatim>\<open>sb\<close> and \<^verbatim>\<open>lb\<close> with their parsed arguments;
  \<^verbatim>\<open>pfm\<close> and \<^verbatim>\<open>ppt\<close> only print.
\<close>

datatype command = NP int int | KP int | SB int int int | LB int int

fun exec :: "memory \<Rightarrow> command \<Rightarrow> fault + memory" where
  "exec mem (NP proc_num pages) =
     (case new_process mem proc_num pages of Inl e \<Rightarrow> Inl e | Inr (r, mem1) \<Rightarrow> Inr mem1)"
| "exec mem (KP proc_num) = kill_process mem proc_num"
| "exec mem (SB proc_num virt_addr val) = store_value mem proc_num virt_addr val"
| "exec mem (LB proc_num virt_addr) =
     (case load_value mem proc_num virt_addr of Inl e \<Rightarrow> Inl e | Inr v \<Rightarrow> Inr mem)"

fun run :: "memory \<Rightarrow> command list \<Rightarrow> fault + memory" where
  "run mem [] = Inr mem"
| "run mem (c # cs) = (case exec mem c of Inl e \<Rightarrow> Inl e | Inr mem1 \<Rightarrow> run mem1 cs)"

text \<open>The byte at an address after a run of commands from the initial memory.\<close>

definition byte_after :: "command list \<Rightarrow> int \<Rightarrow> fault + u8" where
  "byte_after cs a = (case run initialize_mem cs of Inl e \<Rightarrow> Inl e | Inr mem \<Rightarrow> mem_read mem a)"

text \<open>The composition \<^verbatim>\<open>deallocate_page(get_page())\<close>.\<close>

definition dealloc_after_get :: "memory \<Rightarrow> fault + memory" where
  "dealloc_after_get mem = (case get_page mem of (pg, mem1) \<Rightarrow> deallocate_page mem1 (uint pg))"

text \<open>
  The byte at an address after a run of commands, and the same byte after that
  composition has been executed next.
\<close>

definition byte_around_dealloc_get :: "command list \<Rightarrow> int \<Rightarrow> fault + (u8 \<times> u8)" where
  "byte_around_dealloc_get cs a =
     (case run initialize_mem cs of
        Inl e \<Rightarrow> Inl e
      | Inr mem \<Rightarrow>
          (case dealloc_after_get mem of
             Inl e \<Rightarrow> Inl e
           | Inr mem1 \<Rightarrow>
               (case mem_read mem a of
                  Inl e \<Rightarrow> Inl e
                | Inr b \<Rightarrow> (case mem_read mem1 a of Inl e \<Rightarrow> Inl e | Inr b1 \<Rightarrow> Inr (b, b1)))))"

text \<open>\<^verbatim>\<open>store_value(p, a, x)\<close> followed by \<^verbatim>\<open>load_value(p, a)\<close>: the value the load prints.\<close>

definition load_after_store :: "memory \<Rightarrow> int \<Rightarrow> int \<Rightarrow> int \<Rightarrow> fault + int" where
  "load_after_store mem proc_num virt_addr val =
     (case store_value mem proc_num virt_addr val of
        Inl e \<Rightarrow> Inl e
      | Inr mem1 \<Rightarrow> load_value mem1 proc_num virt_addr)"

text \<open>
  The memory after \<^verbatim>\<open>np 0 2\<close> on the initial memory: page 1 is the page table of
  process 0, pages 2 and 3 are its data pages.
\<close>

definition mem_np_0_2 :: memory where
  "mem_np_0_2 = (\<lambda>_. 0)(0 := 1, 1 := 1, 64 := 1, 2 := 1, 256 := 2, 3 := 1, 257 := 3)"

text \<open>The number of pages the usage table marks free (a quantity of the proofs only).\<close>

definition free_count :: "memory \<Rightarrow> nat" where
  "free_count mem = card {j. 0 \<le> j \<and> j < 64 \<and> mem j = 0}"


definition report_and_byte_after :: "command list \<Rightarrow> int \<Rightarrow> int \<Rightarrow> int \<Rightarrow> fault + (np_report \<times> u8)" where
  "report_and_byte_after cs proc_num page_count a =
     (case run initialize_mem cs of
        Inl e \<Rightarrow> Inl e
      | Inr mem \<Rightarrow>
          (case new_process mem proc_num page_count of
             Inl e \<Rightarrow> Inl e
           | Inr (r, mem1) \<Rightarrow> (case mem_read mem1 a of Inl e \<Rightarrow> Inl e | Inr b \<Rightarrow> Inr (r, b))))"

text \<open>
  The physical address \<^verbatim>\<open>get_physical_addr\<close> computes after a run of commands from the
  initial memory.
\<close>

definition translation_after :: "command list \<Rightarrow> int \<Rightarrow> int \<Rightarrow> fault + int" where
  "translation_after cs proc_num virt_addr =
     (case run initialize_mem cs of
        Inl e \<Rightarrow> Inl e
      | Inr mem \<Rightarrow> get_physical_addr mem proc_num virt_addr)"


text \<open>
  The commands that cannot clear the usage byte of page 0: every \<^verbatim>\<open>np\<close> and \<^verbatim>\<open>lb\<close>, a
  \<^verbatim>\<open>kp\<close> whose process has a non-zero slot, and an \<^verbatim>\<open>sb\<close> that translates to a physical
  address other than 0 or stores a non-zero byte. A run is guarded when each of its
  commands is, in the memory it starts from.
\<close>

fun keeps_page0 :: "memory \<Rightarrow> command \<Rightarrow> bool" where
  "keeps_page0 mem (KP proc_num) = (get_page_table mem proc_num \<noteq> Inr 0)"
| "keeps_page0 mem (SB proc_num virt_addr val) =
     (get_physical_addr mem proc_num virt_addr \<noteq> Inr 0 \<or> (word_of_int val :: u8) \<noteq> 0)"
| "keeps_page0 mem (NP proc_num pages) = True"
| "keeps_page0 mem (LB proc_num virt_addr) = True"

fun guarded :: "memory \<Rightarrow> command list \<Rightarrow> bool" where
  "guarded mem [] = True"
| "guarded mem (c # cs) =
     (keeps_page0 mem c \<and> (case exec mem c of Inl e \<Rightarrow> True | Inr mem1 \<Rightarrow> guarded mem1 cs))"

section \<open>The allocator scan\<close>

lemma get_page_scan_full:
  "0 \<le> i \<Longrightarrow> \<forall>j. i \<le> j \<and> j < 64 \<longrightarrow> mem j \<noteq> 0 \<Longrightarrow> get_page_scan i mem = (0xff, mem)"
proof (induction "nat (64 - i)" arbitrary: i)
  case 0
  then show ?case
    by (simp add: get_page_scan.simps [of i mem] PAGE_COUNT_def)
next
  case (Suc n)
  then have lt: "i < 64" and nz: "mem i \<noteq> 0" by simp_all
  from Suc.prems have "\<forall>j. i + 1 \<le> j \<and> j < 64 \<longrightarrow> mem j \<noteq> 0" by simp
  moreover from Suc.hyps(2) have "n = nat (64 - (i + 1))" by simp
  ultimately have "get_page_scan (i + 1) mem = (0xff, mem)"
    using Suc.hyps(1) [of "i + 1"] Suc.prems(1) by simp
  with lt nz show ?case
    by (simp add: get_page_scan.simps [of i mem] PAGE_COUNT_def)
qed

lemma get_page_scan_free:
  "0 \<le> i \<Longrightarrow> i \<le> k \<Longrightarrow> k < 64 \<Longrightarrow> mem k = 0 \<Longrightarrow> \<forall>j. i \<le> j \<and> j < k \<longrightarrow> mem j \<noteq> 0 \<Longrightarrow>
   get_page_scan i mem = (word_of_int k, mem(k := 1))"
proof (induction "nat (k - i)" arbitrary: i)
  case 0
  then have ik: "i = k" by simp
  from "0.prems"(3,4) have *: "get_page_scan k mem = (word_of_int k, mem(k := 1))"
    by (simp add: get_page_scan.simps [of k mem] PAGE_COUNT_def)
  show ?case unfolding ik by (rule *)
next
  case (Suc n)
  then have lt: "i < 64" and ik: "i + 1 \<le> k" and nz: "mem i \<noteq> 0" by simp_all
  from Suc.prems have "\<forall>j. i + 1 \<le> j \<and> j < k \<longrightarrow> mem j \<noteq> 0" by simp
  moreover from Suc.hyps(2) have "n = nat (k - (i + 1))" by simp
  ultimately have "get_page_scan (i + 1) mem = (word_of_int k, mem(k := 1))"
    using Suc.hyps(1) [of "i + 1"] Suc.prems ik by simp
  with lt nz show ?case
    by (simp add: get_page_scan.simps [of i mem] PAGE_COUNT_def)
qed

lemma least_free_page:
  assumes "0 \<le> k" "k < 64" "(mem :: memory) k = 0"
  shows "\<exists>p. 0 \<le> p \<and> p < 64 \<and> mem p = 0 \<and> (\<forall>j. 0 \<le> j \<and> j < p \<longrightarrow> mem j \<noteq> 0)"
proof -
  define P where "P n \<longleftrightarrow> mem (int n) = 0" for n
  from assms have "P (nat k)" by (simp add: P_def)
  then have L: "P (LEAST n. P n)"
    by (rule LeastI)
  have M: "\<And>m. m < (LEAST n. P n) \<Longrightarrow> \<not> P m"
    by (rule not_less_Least)
  have le: "(LEAST n. P n) \<le> nat k"
    using \<open>P (nat k)\<close> by (rule Least_le)
  let ?p = "int (LEAST n. P n)"
  have "\<forall>j. 0 \<le> j \<and> j < ?p \<longrightarrow> mem j \<noteq> 0"
  proof (intro allI impI)
    fix j assume j: "0 \<le> j \<and> j < ?p"
    then have "nat j < (LEAST n. P n)" by linarith
    from M [OF this] j show "mem j \<noteq> 0" by (simp add: P_def)
  qed
  moreover from L have "mem ?p = 0" by (simp add: P_def)
  moreover from le assms have "0 \<le> ?p \<and> ?p < 64" by simp
  ultimately show ?thesis by blast
qed

lemma get_page_free:
  assumes "0 \<le> p" "p < 64" "mem p = 0" "\<forall>j. 0 \<le> j \<and> j < p \<longrightarrow> mem j \<noteq> 0"
  shows "get_page mem = (word_of_int p, mem(p := 1))"
  unfolding get_page_def using assms by (intro get_page_scan_free) simp_all

lemma get_page_full:
  assumes "\<forall>j. 0 \<le> j \<and> j < 64 \<longrightarrow> mem j \<noteq> 0"
  shows "get_page mem = (0xff, mem)"
  unfolding get_page_def using assms by (intro get_page_scan_full) simp_all

lemma get_page_cases:
  obtains (full) "get_page mem = (0xff, mem)" "\<forall>j. 0 \<le> j \<and> j < 64 \<longrightarrow> mem j \<noteq> 0"
  | (free) k where "0 \<le> k" "k < 64" "mem k = 0" "\<forall>j. 0 \<le> j \<and> j < k \<longrightarrow> mem j \<noteq> 0"
      "get_page mem = (word_of_int k, mem(k := 1))"
proof (cases "\<forall>j. 0 \<le> j \<and> j < 64 \<longrightarrow> mem j \<noteq> 0")
  case True
  with get_page_full [OF True] full show ?thesis by blast
next
  case False
  then obtain k where k: "0 \<le> k" "k < 64" "mem k = 0" by blast
  from least_free_page [of k mem] k obtain p where
    p: "0 \<le> p" "p < 64" "mem p = 0" "\<forall>j. 0 \<le> j \<and> j < p \<longrightarrow> mem j \<noteq> 0" by blast
  from get_page_free [OF p] p free show ?thesis by blast
qed

lemma uint_word_of_int_page: "0 \<le> k \<Longrightarrow> k < 256 \<Longrightarrow> uint (word_of_int k :: u8) = k"
  by (simp add: uint_word_of_int take_bit_int_eq_self)

text \<open>
  C5. In every memory state \<^verbatim>\<open>get_page\<close> returns the smallest page number \<open>p\<close> in
  \<open>[0, PAGE_COUNT)\<close> whose usage byte is 0 and sets that byte to 1, changing nothing
  else; when no usage byte in \<open>[0, PAGE_COUNT)\<close> is 0 it returns \<open>0xff\<close> and leaves
  the memory unchanged. The result is a function of the memory alone: first fit by
  ascending page number.
\<close>

theorem get_page_first_fit:
  "(0 \<le> p \<and> p < PAGE_COUNT \<and> mem p = 0 \<and> (\<forall>j. 0 \<le> j \<and> j < p \<longrightarrow> mem j \<noteq> 0)
      \<longrightarrow> get_page mem = (word_of_int p, mem(p := 1))) \<and>
   ((\<forall>j. 0 \<le> j \<and> j < PAGE_COUNT \<longrightarrow> mem j \<noteq> 0) \<longrightarrow> get_page mem = (0xff, mem))"
  using get_page_free [of p mem] get_page_full [of mem] by (simp add: PAGE_COUNT_def)

theorem get_page_first_fit_witness:
  "get_page initialize_mem = (1, initialize_mem(1 := 1)) \<and> get_page (\<lambda>_. 1) = (0xff, \<lambda>_. 1)"
proof -
  have a: "\<forall>j. 0 \<le> j \<and> j < 1 \<longrightarrow> initialize_mem j \<noteq> 0"
  proof (intro allI impI)
    fix j :: int assume "0 \<le> j \<and> j < 1"
    then have "j = 0" by simp
    then show "initialize_mem j \<noteq> 0" by (simp add: initialize_mem_def)
  qed
  have b: "initialize_mem 1 = 0" by (simp add: initialize_mem_def)
  from get_page_first_fit [of 1 initialize_mem] a b
  have "get_page initialize_mem = (word_of_int 1, initialize_mem(1 := 1))"
    by (simp add: PAGE_COUNT_def)
  moreover from get_page_first_fit [of 0 "\<lambda>_. 1"]
  have "get_page (\<lambda>_. 1) = (0xff, \<lambda>_. 1)" by simp
  ultimately show ?thesis by simp
qed

section \<open>Allocating and giving back\<close>

text \<open>
  C6, as the code has it. For every memory state in which \<^verbatim>\<open>get_page\<close> finds a free
  page (it does not return \<open>0xff\<close>), \<^verbatim>\<open>deallocate_page(get_page())\<close> leaves the whole
  memory exactly as it was before the allocation, so the same scan returns the same
  page again.
\<close>

theorem dealloc_after_get_restores:
  assumes "get_page mem = (pg, mem1)" "pg \<noteq> 0xff"
  shows "dealloc_after_get mem = Inr mem \<and> deallocate_page mem1 (uint pg) = Inr mem"
proof (cases mem rule: get_page_cases)
  case full
  with assms show ?thesis by simp
next
  case (free k)
  with assms have pg: "pg = word_of_int k" and m1: "mem1 = mem(k := 1)" by simp_all
  from free have u: "uint pg = k" by (simp add: pg uint_word_of_int_page)
  have "(mem(k := 1))(k := 0) = mem"
    using free(3) by (simp add: fun_upd_idem)
  with free(1,2) have "deallocate_page mem1 (uint pg) = Inr mem"
    by (simp add: deallocate_page_def mem_write_def MEM_SIZE_def u m1)
  with assms(1) show ?thesis by (simp add: dealloc_after_get_def)
qed

theorem dealloc_after_get_restores_witness:
  "dealloc_after_get initialize_mem = Inr initialize_mem \<and>
   deallocate_page (initialize_mem(1 := 1)) 1 = Inr initialize_mem"
proof -
  have g: "get_page initialize_mem = (1, initialize_mem(1 := 1))"
    using get_page_free [of 1 initialize_mem] by (simp add: initialize_mem_def)
  from dealloc_after_get_restores [OF g] show ?thesis by simp
qed

text \<open>
  C6 as stated fails when no page is free. After \<^verbatim>\<open>np 191 62\<close> on the initial memory
  all 64 pages are in use and the slot of process 191, the byte \<open>mem[255]\<close>, holds
  its page table's number 1. \<^verbatim>\<open>get_page\<close> then returns \<open>0xff\<close> and
  \<^verbatim>\<open>deallocate_page(0xff)\<close> clears \<open>mem[255]\<close>.
\<close>

theorem dealloc_after_get_exhausted_counterexample:
  "byte_around_dealloc_get [NP 191 62] 255 = Inr (1, 0)"
  by code_simp

section \<open>Consecutive allocations\<close>

lemma get_pages_run:
  "0 \<le> m \<Longrightarrow> m + int k \<le> 64 \<Longrightarrow>
   \<forall>j. 0 \<le> j \<and> j < m \<longrightarrow> mem j \<noteq> 0 \<Longrightarrow>
   \<forall>j. m \<le> j \<and> j < 64 \<longrightarrow> mem j = 0 \<Longrightarrow>
   distinct (fst (get_pages k mem)) \<and>
   (\<forall>pg \<in> set (fst (get_pages k mem)). m \<le> uint pg \<and> uint pg < m + int k) \<and>
   (\<forall>j. 0 \<le> j \<and> j < m + int k \<longrightarrow> snd (get_pages k mem) j \<noteq> 0) \<and>
   (\<forall>j. m + int k \<le> j \<and> j < 64 \<longrightarrow> snd (get_pages k mem) j = 0)"
proof (induct k arbitrary: m mem)
  case 0
  then show ?case by simp
next
  case (Suc k)
  from Suc.prems have m: "0 \<le> m" "m < 64" "mem m = 0" by simp_all
  define mem1 where "mem1 = mem(m := 1)"
  from get_page_free [OF m Suc.prems(3)]
  have g: "get_page mem = (word_of_int m, mem1)" by (simp only: mem1_def)
  have nz: "\<forall>j. 0 \<le> j \<and> j < m + 1 \<longrightarrow> mem1 j \<noteq> 0"
    using Suc.prems(3) by (simp add: mem1_def)
  have z: "\<forall>j. m + 1 \<le> j \<and> j < 64 \<longrightarrow> mem1 j = 0"
    using Suc.prems(4) by (simp add: mem1_def)
  from Suc.prems have b: "0 \<le> m + 1" "m + 1 + int k \<le> 64" by simp_all
  note IH = Suc.hyps [OF b nz z]
  obtain pgs mem2 where r: "get_pages k mem1 = (pgs, mem2)" by (cases "get_pages k mem1")
  from g r have f: "get_pages (Suc k) mem = (word_of_int m # pgs, mem2)" by simp
  from m have um: "uint (word_of_int m :: u8) = m" by (simp add: uint_word_of_int_page)
  from IH r have d: "distinct pgs" and rng: "\<forall>pg \<in> set pgs. m + 1 \<le> uint pg \<and> uint pg < m + 1 + int k"
    and nz2: "\<forall>j. 0 \<le> j \<and> j < m + 1 + int k \<longrightarrow> mem2 j \<noteq> 0"
    and z2: "\<forall>j. m + 1 + int k \<le> j \<and> j < 64 \<longrightarrow> mem2 j = 0"
    by simp_all
  from rng um have "word_of_int m \<notin> set pgs" by fastforce
  with d have 1: "distinct (word_of_int m # pgs)" by simp
  from rng um have 2: "\<forall>pg \<in> set (word_of_int m # pgs). m \<le> uint pg \<and> uint pg < m + int (Suc k)"
    by fastforce
  from nz2 have 3: "\<forall>j. 0 \<le> j \<and> j < m + int (Suc k) \<longrightarrow> mem2 j \<noteq> 0"
    by (simp add: add.commute add.left_commute)
  from z2 have 4: "\<forall>j. m + int (Suc k) \<le> j \<and> j < 64 \<longrightarrow> mem2 j = 0"
    by (simp add: add.commute add.left_commute)
  from 1 2 3 4 show ?case unfolding f fst_conv snd_conv by blast
qed

text \<open>
  C4. From a state in which every usage byte is 0, any \<open>k \<le> PAGE_COUNT\<close> consecutive
  calls of \<^verbatim>\<open>get_page\<close> return page numbers in \<open>[0, PAGE_COUNT)\<close> that are pairwise
  distinct, and the call after \<open>PAGE_COUNT\<close> calls returns the sentinel \<open>0xff\<close>.
\<close>

theorem get_pages_distinct_then_exhausted:
  assumes "\<forall>j. 0 \<le> j \<and> j < PAGE_COUNT \<longrightarrow> mem j = 0"
  shows "(int k \<le> PAGE_COUNT \<longrightarrow>
            distinct (fst (get_pages k mem)) \<and>
            (\<forall>pg \<in> set (fst (get_pages k mem)). 0 \<le> uint pg \<and> uint pg < PAGE_COUNT)) \<and>
         fst (get_page (snd (get_pages (nat PAGE_COUNT) mem))) = 0xff"
proof -
  from assms have z: "\<forall>j. 0 \<le> j \<and> j < 64 \<longrightarrow> mem j = 0" by (simp add: PAGE_COUNT_def)
  have nz: "\<forall>j::int. 0 \<le> j \<and> j < 0 \<longrightarrow> mem j \<noteq> 0" by auto
  have run: "int n \<le> 64 \<Longrightarrow>
        distinct (fst (get_pages n mem)) \<and>
        (\<forall>pg \<in> set (fst (get_pages n mem)). 0 \<le> uint pg \<and> uint pg < int n) \<and>
        (\<forall>j. 0 \<le> j \<and> j < int n \<longrightarrow> snd (get_pages n mem) j \<noteq> 0)" for n
    using get_pages_run [of 0 n mem] z nz by simp
  have "fst (get_page (snd (get_pages 64 mem))) = 0xff"
    using run [of 64] get_page_full [of "snd (get_pages 64 mem)"] by simp
  moreover have "distinct (fst (get_pages k mem)) \<and>
      (\<forall>pg \<in> set (fst (get_pages k mem)). 0 \<le> uint pg \<and> uint pg < 64)" if k: "int k \<le> 64"
    using run [OF k] k by fastforce
  ultimately show ?thesis by (simp add: PAGE_COUNT_def)
qed

theorem get_pages_distinct_then_exhausted_witness:
  "distinct (fst (get_pages 3 (\<lambda>_. 0))) \<and>
   fst (get_pages 3 (\<lambda>_. 0)) = [0, 1, 2] \<and>
   fst (get_page (snd (get_pages (nat PAGE_COUNT) (\<lambda>_. 0)))) = 0xff"
proof -
  have "fst (get_pages 3 (\<lambda>_. 0)) = [0, 1, 2]" by code_simp
  with get_pages_distinct_then_exhausted [of "\<lambda>_. 0" 3] show ?thesis
    by (simp add: PAGE_COUNT_def)
qed

section \<open>Bit arithmetic of addresses\<close>

lemma get_address_add:
  assumes "0 \<le> offset" "offset < 256"
  shows "get_address page offset = page * 256 + offset"
proof -
  from assms have t: "take_bit 8 offset = offset"
    by (simp add: take_bit_int_eq_self)
  have "get_address page offset = concat_bit 8 offset page"
    by (simp add: get_address_def PAGE_SHIFT_def concat_bit_def t or.commute)
  also have "\<dots> = take_bit 8 offset + push_bit 8 page"
    by (rule concat_bit_eq)
  finally show ?thesis
    by (simp add: t push_bit_eq_mult)
qed

lemma split_virt_addr:
  fixes v o' :: int
  assumes "0 \<le> o'" "o' < 256"
  shows "drop_bit 8 (v * 256 + o') = v" "(v * 256 + o') AND 255 = o'"
proof -
  show "drop_bit 8 (v * 256 + o') = v"
    using assms by (simp add: drop_bit_eq_div)
  have "(v * 256 + o') AND 255 = take_bit 8 (v * 256 + o')"
    by (simp add: take_bit_eq_mask mask_eq_exp_minus_1)
  also have "\<dots> = o'"
    using assms by (simp add: take_bit_eq_mod)
  finally show "(v * 256 + o') AND 255 = o'" .
qed

lemma new_process_np_0_2: "new_process initialize_mem 0 2 = Inr (Created, mem_np_0_2)"
  by (simp add: new_process_def get_page_def get_page_scan.simps new_process_loop.simps
        mem_write_def get_address_def initialize_mem_def mem_np_0_2_def
        PAGE_COUNT_def PAGE_SHIFT_def MEM_SIZE_def)

section \<open>Creating a process\<close>

lemma free_set_finite: "finite {j::int. 0 \<le> j \<and> j < 64 \<and> P j}"
  by (rule finite_subset [of _ "{0..<64}"]) auto

lemma free_count_page0: "mem 0 \<noteq> 0 \<Longrightarrow> free_count mem \<le> 63"
proof -
  assume "mem 0 \<noteq> 0"
  have "1 \<le> j" if "0 \<le> j" "mem j = 0" for j :: int
  proof -
    from that \<open>mem 0 \<noteq> 0\<close> have "j \<noteq> 0" by auto
    with that show ?thesis by simp
  qed
  then have "{j. 0 \<le> j \<and> j < 64 \<and> mem j = 0} \<subseteq> {1..<64}"
    by auto
  then have "free_count mem \<le> card {1..<64::int}"
    unfolding free_count_def by (intro card_mono) simp_all
  then show ?thesis by simp
qed

lemma free_count_alloc:
  assumes "0 \<le> k" "k < 64" "mem k = 0"
  shows "Suc (free_count (mem(k := 1))) = free_count mem"
proof -
  have "{j. 0 \<le> j \<and> j < 64 \<and> (mem(k := 1)) j = 0} = {j. 0 \<le> j \<and> j < 64 \<and> mem j = 0} - {k}"
    by auto
  moreover have "k \<in> {j. 0 \<le> j \<and> j < 64 \<and> mem j = 0}"
    using assms by simp
  ultimately show ?thesis
    unfolding free_count_def
    using card.remove [of "{j. 0 \<le> j \<and> j < 64 \<and> mem j = 0}" k]
    by (simp only: free_set_finite)
qed

lemma free_count_write:
  assumes "x \<noteq> 0"
  shows "free_count (mem(a := x)) \<le> free_count mem"
proof -
  have "{j. 0 \<le> j \<and> j < 64 \<and> (mem(a := x)) j = 0} \<subseteq> {j. 0 \<le> j \<and> j < 64 \<and> mem j = 0}"
    using assms by auto
  then show ?thesis
    unfolding free_count_def by (intro card_mono free_set_finite)
qed


lemma word_of_int_page_nonzero: "1 \<le> k \<Longrightarrow> k < 256 \<Longrightarrow> (word_of_int k :: u8) \<noteq> 0"
proof
  assume k: "1 \<le> k" "k < 256" and z: "(word_of_int k :: u8) = 0"
  from k have "uint (word_of_int k :: u8) = k" by (simp add: uint_word_of_int_page)
  with z k show False by simp
qed

lemma new_process_loop_inv:
  assumes "0 \<le> pt" "pt < 64" "0 \<le> v" "mem 0 \<noteq> 0" "v + int (free_count mem) \<le> B" "B \<le> 256"
  shows "\<exists>r mem'. new_process_loop pt n v mem = Inr (r, mem') \<and>
          mem' 0 \<noteq> 0 \<and>
          (\<forall>a. mem' a \<noteq> mem a \<longrightarrow>
                ((0 \<le> a \<and> a < 64 \<and> mem a = 0) \<or> (pt * 256 + v \<le> a \<and> a < pt * 256 + B)) \<and>
                mem' a \<noteq> 0 \<and> uint (mem' a) < 64) \<and>
          (r = Created \<longrightarrow> n \<le> v + int (free_count mem) \<and>
                (\<forall>u. v \<le> u \<and> u < n \<longrightarrow> mem' (pt * 256 + u) \<noteq> 0))"
  using assms
proof (induct "nat (n - v)" arbitrary: v mem)
  case 0
  then have "new_process_loop pt n v mem = Inr (Created, mem)"
    by (simp add: new_process_loop.simps [of pt n v mem])
  moreover from 0 have "n \<le> v + int (free_count mem)" by simp
  moreover from 0 have "\<forall>u. v \<le> u \<and> u < n \<longrightarrow> mem (pt * 256 + u) \<noteq> 0" by auto
  ultimately show ?case using "0.prems"(4) by blast
next
  case (Suc d)
  then have vn: "v < n" by simp
  show ?case
  proof (cases mem rule: get_page_cases)
    case full
    with vn have "new_process_loop pt n v mem = Inr (OOM_data_page, mem)"
      by (simp add: new_process_loop.simps [of pt n v mem])
    with Suc.prems(4) show ?thesis by blast
  next
    case (free k)
    define np :: u8 where "np = word_of_int k"
    define mem1 where "mem1 = mem(k := 1)"
    define A where "A = pt * 256 + v"
    define mem2 where "mem2 = mem1(A := np)"
    from free Suc.prems(4) have k1: "1 \<le> k"
      by (cases "k = 0") auto
    from free k1 have unp: "uint np = k" and npz: "np \<noteq> 0"
      by (simp_all add: np_def uint_word_of_int_page word_of_int_page_nonzero)
    from free have g: "get_page mem = (np, mem1)"
      by (simp only: np_def mem1_def)
    from free have fc: "Suc (free_count mem1) = free_count mem"
      unfolding mem1_def by (intro free_count_alloc)
    with Suc.prems have vB: "v + 1 + int (free_count mem1) \<le> B" and v256: "v < 256" and vlt: "v < B"
      by simp_all
    from v256 Suc.prems(3) have ga: "get_address pt v = A"
      by (simp add: get_address_add A_def)
    from Suc.prems(1,2,3) v256 have Ab: "0 \<le> A" "A < MEM_SIZE"
      by (simp_all add: A_def MEM_SIZE_def)
    then have w: "mem_write mem1 (get_address pt v) np = Inr mem2"
      by (simp add: mem_write_def ga mem2_def)
    from vn g unp free(2) w
    have step: "new_process_loop pt n v mem = new_process_loop pt n (v + 1) mem2"
      by (simp add: new_process_loop.simps [of pt n v mem])
    have m1: "mem1 0 \<noteq> 0"
      using Suc.prems(4) by (simp add: mem1_def)
    have m2: "mem2 0 \<noteq> 0"
      using m1 npz by (simp add: mem2_def)
    have "free_count mem2 \<le> free_count mem1"
      unfolding mem2_def using npz by (rule free_count_write)
    with vB have vB2: "v + 1 + int (free_count mem2) \<le> B" by simp
    from Suc.hyps(2) have d: "d = nat (n - (v + 1))" by simp
    from Suc.prems(3) have v1: "0 \<le> v + 1" by simp
    from Suc.hyps(1) [OF d Suc.prems(1,2) v1 m2 vB2 Suc.prems(6)]
    obtain r mem' where
      L: "new_process_loop pt n (v + 1) mem2 = Inr (r, mem')"
      and p0: "mem' 0 \<noteq> 0"
      and fr: "\<forall>a. mem' a \<noteq> mem2 a \<longrightarrow>
                ((0 \<le> a \<and> a < 64 \<and> mem2 a = 0) \<or> (pt * 256 + (v + 1) \<le> a \<and> a < pt * 256 + B)) \<and>
                mem' a \<noteq> 0 \<and> uint (mem' a) < 64"
      and cr: "r = Created \<longrightarrow> n \<le> v + 1 + int (free_count mem2) \<and>
                (\<forall>u. v + 1 \<le> u \<and> u < n \<longrightarrow> mem' (pt * 256 + u) \<noteq> 0)"
      by blast
    have m2A: "mem2 A = np" by (simp add: mem2_def)
    have m2k: "mem2 k \<noteq> 0" using npz by (simp add: mem2_def mem1_def)
    have m2o: "mem2 a = mem a" if "a \<noteq> A" "a \<noteq> k" for a
      using that by (simp add: mem2_def mem1_def)
    have frame: "((0 \<le> a \<and> a < 64 \<and> mem a = 0) \<or> (pt * 256 + v \<le> a \<and> a < pt * 256 + B)) \<and>
                mem' a \<noteq> 0 \<and> uint (mem' a) < 64" if ne: "mem' a \<noteq> mem a" for a
    proof (cases "mem' a = mem2 a")
      case False
      with fr have c: "(0 \<le> a \<and> a < 64 \<and> mem2 a = 0) \<or> (pt * 256 + (v + 1) \<le> a \<and> a < pt * 256 + B)"
        and nz: "mem' a \<noteq> 0 \<and> uint (mem' a) < 64" by blast+
      from c show ?thesis
      proof
        assume a: "0 \<le> a \<and> a < 64 \<and> mem2 a = 0"
        with m2A npz m2k have "a \<noteq> A" "a \<noteq> k" by auto
        with a m2o have "mem a = 0" by simp
        with a nz show ?thesis by blast
      next
        assume "pt * 256 + (v + 1) \<le> a \<and> a < pt * 256 + B"
        then have "pt * 256 + v \<le> a \<and> a < pt * 256 + B" by simp
        with nz show ?thesis by blast
      qed
    next
      case True
      with ne m2o have "a = A \<or> a = k" by metis
      then show ?thesis
      proof
        assume aA: "a = A"
        with True m2A have "mem' a = np" by simp
        with npz unp free(2) have "mem' a \<noteq> 0 \<and> uint (mem' a) < 64" by simp
        moreover from aA vlt have "pt * 256 + v \<le> a \<and> a < pt * 256 + B" by (simp add: A_def)
        ultimately show ?thesis by blast
      next
        assume ak: "a = k"
        show ?thesis
        proof (cases "k = A")
          case kA: True
          with ak True m2A have "mem' a = np" by simp
          with npz unp free(2) have "mem' a \<noteq> 0 \<and> uint (mem' a) < 64" by simp
          with ak free show ?thesis by blast
        next
          case False
          then have "mem2 k = 1" by (simp add: mem2_def mem1_def)
          with ak True have "mem' a = 1" by simp
          then have "mem' a \<noteq> 0 \<and> uint (mem' a) < 64" by simp
          with ak free show ?thesis by blast
        qed
      qed
    qed
    have created: "n \<le> v + int (free_count mem) \<and>
                (\<forall>u. v \<le> u \<and> u < n \<longrightarrow> mem' (pt * 256 + u) \<noteq> 0)" if rc: "r = Created"
    proof -
      from rc cr have c1: "n \<le> v + 1 + int (free_count mem2)"
        and c2: "\<forall>u. v + 1 \<le> u \<and> u < n \<longrightarrow> mem' (pt * 256 + u) \<noteq> 0" by blast+
      from c1 \<open>free_count mem2 \<le> free_count mem1\<close> fc have "n \<le> v + int (free_count mem)" by simp
      moreover have "mem' (pt * 256 + u) \<noteq> 0" if u: "v \<le> u \<and> u < n" for u
      proof (cases "u = v")
        case True
        show ?thesis
        proof (cases "mem' A = mem2 A")
          case True
          with m2A npz have "mem' A \<noteq> 0" by simp
          with \<open>u = v\<close> show ?thesis by (simp add: A_def)
        next
          case False
          with fr have "mem' A \<noteq> 0" by blast
          with \<open>u = v\<close> show ?thesis by (simp add: A_def)
        qed
      next
        case False
        with u have "v + 1 \<le> u \<and> u < n" by simp
        with c2 show ?thesis by blast
      qed
      ultimately show ?thesis by blast
    qed
    from step L have "new_process_loop pt n v mem = Inr (r, mem')" by simp
    with p0 frame created show ?thesis by blast
  qed
qed


lemma new_process_full:
  "get_page mem = (0xff, mem) \<Longrightarrow> new_process mem p n = Inr (OOM_page_table, mem)"
  by (simp add: new_process_def)

lemma new_process_alloc:
  assumes "get_page mem = (word_of_int k, mem1)" "0 \<le> k" "k < 64"
  shows "new_process mem p n =
           (case mem_write mem1 (64 + p) (word_of_int k) of
              Inl e \<Rightarrow> Inl e
            | Inr mem2 \<Rightarrow> new_process_loop k n 0 mem2)"
proof -
  from assms have u: "uint (word_of_int k :: u8) = k"
    by (simp add: uint_word_of_int_page)
  with assms show ?thesis
    by (simp add: new_process_def Let_def split: sum.splits)
qed

lemma new_process_elim:
  assumes np: "new_process mem p n = Inr (r, mem')" and p64: "p = - 64 \<longrightarrow> mem 0 \<noteq> 0"
  obtains (oom) "r = OOM_page_table" "mem' = mem" "get_page mem = (0xff, mem)"
  | (alloc) k mem2 where "0 \<le> k" "k < 64" "mem k = 0" "\<forall>j. 0 \<le> j \<and> j < k \<longrightarrow> mem j \<noteq> 0"
      "get_page mem = (word_of_int k, mem(k := 1))"
      "mem2 = (mem(k := 1))(64 + p := word_of_int k)" "0 \<le> 64 + p" "64 + p < MEM_SIZE"
      "new_process_loop k n 0 mem2 = Inr (r, mem')"
      "mem' 0 \<noteq> 0"
      "\<forall>a. mem' a \<noteq> mem2 a \<longrightarrow>
           ((0 \<le> a \<and> a < 64 \<and> mem2 a = 0) \<or> (k * 256 \<le> a \<and> a < k * 256 + 63)) \<and>
           mem' a \<noteq> 0 \<and> uint (mem' a) < 64"
      "r = Created \<longrightarrow> n \<le> 63 \<and> (\<forall>u. 0 \<le> u \<and> u < n \<longrightarrow> mem' (k * 256 + u) \<noteq> 0)"
proof (cases mem rule: get_page_cases)
  case full
  with np new_process_full [of mem p n] have "r = OOM_page_table" "mem' = mem" by simp_all
  with full oom show ?thesis by blast
next
  case (free k)
  define mem2 where "mem2 = (mem(k := 1))(64 + p := word_of_int k :: u8)"
  from new_process_alloc [OF free(5) free(1,2), of p n] np
  have b: "0 \<le> 64 + p" "64 + p < MEM_SIZE"
    and L: "new_process_loop k n 0 mem2 = Inr (r, mem')"
    by (simp_all add: mem_write_def mem2_def split: if_splits)
  have m2: "mem2 0 \<noteq> 0"
  proof (cases "64 + p = 0")
    case True
    with p64 free(1,3) have "1 \<le> k" by (cases "k = 0") auto
    with free(2) True show ?thesis by (simp add: mem2_def word_of_int_page_nonzero)
  next
    case False
    show ?thesis
    proof (cases "k = 0")
      case True
      with False show ?thesis by (simp add: mem2_def)
    next
      case k: False
      with free(1,4) have "mem 0 \<noteq> 0" by simp
      with False k show ?thesis by (simp add: mem2_def)
    qed
  qed
  from free_count_page0 [of mem2] m2 have fc: "0 + int (free_count mem2) \<le> 63" by simp
  from new_process_loop_inv [OF free(1,2) _ m2 fc, of n] L
  have p0: "mem' 0 \<noteq> 0"
    and fr: "\<forall>a. mem' a \<noteq> mem2 a \<longrightarrow>
           ((0 \<le> a \<and> a < 64 \<and> mem2 a = 0) \<or> (k * 256 + 0 \<le> a \<and> a < k * 256 + 63)) \<and>
           mem' a \<noteq> 0 \<and> uint (mem' a) < 64"
    and cr: "r = Created \<longrightarrow> n \<le> 0 + int (free_count mem2) \<and>
                (\<forall>u. 0 \<le> u \<and> u < n \<longrightarrow> mem' (k * 256 + u) \<noteq> 0)"
    by auto
  from fr have fr': "\<forall>a. mem' a \<noteq> mem2 a \<longrightarrow>
           ((0 \<le> a \<and> a < 64 \<and> mem2 a = 0) \<or> (k * 256 \<le> a \<and> a < k * 256 + 63)) \<and>
           mem' a \<noteq> 0 \<and> uint (mem' a) < 64" by simp
  from cr fc have cr': "r = Created \<longrightarrow> n \<le> 63 \<and> (\<forall>u. 0 \<le> u \<and> u < n \<longrightarrow> mem' (k * 256 + u) \<noteq> 0)"
    by auto
  from alloc [OF free(1-5) mem2_def b L p0 fr' cr'] show ?thesis .
qed

lemma get_page_zero: "mem 0 = 0 \<Longrightarrow> get_page mem = (0, mem(0 := 1))"
proof -
  assume z: "mem 0 = 0"
  have "get_page_scan 0 mem = (word_of_int 0, mem(0 := 1))"
    using z by (simp add: get_page_scan.simps [of 0 mem] PAGE_COUNT_def)
  then show ?thesis by (simp add: get_page_def)
qed

lemma new_process_loop_page0_free:
  assumes "mem 0 = 0"
  shows "\<exists>r mem'. new_process_loop 0 n 0 mem = Inr (r, mem') \<and>
           (\<forall>a. mem' a \<noteq> mem a \<longrightarrow> 0 \<le> a \<and> a < 65 \<and> uint (mem' a) < 64) \<and>
           (r = Created \<longrightarrow> n \<le> 65)"
proof (cases "0 < n")
  case False
  then have "new_process_loop 0 n 0 mem = Inr (Created, mem)"
    by (simp add: new_process_loop.simps [of 0 n 0 mem])
  with False show ?thesis by simp
next
  case n0: True
  define mem1 :: memory where "mem1 = mem(0 := 1)"
  define mem3 :: memory where "mem3 = mem1(0 := 0)"
  have g: "get_page mem = (0, mem1)"
    using get_page_zero [of mem] assms by (simp only: mem1_def)
  have w: "mem_write mem1 (get_address 0 0) 0 = Inr mem3"
    by (simp add: mem_write_def get_address_def MEM_SIZE_def mem3_def)
  from n0 g w have s1: "new_process_loop 0 n 0 mem = new_process_loop 0 n 1 mem3"
    by (simp add: new_process_loop.simps [of 0 n 0 mem])
  have m3: "mem3 a = mem a" for a
    using assms by (simp add: mem3_def mem1_def)
  show ?thesis
  proof (cases "1 < n")
    case False
    then have "new_process_loop 0 n 1 mem3 = Inr (Created, mem3)"
      by (simp add: new_process_loop.simps [of 0 n 1 mem3])
    with s1 False m3 show ?thesis by simp
  next
    case n1: True
    define mem4 :: memory where "mem4 = mem3(0 := 1)"
    define mem5 :: memory where "mem5 = mem4(1 := 0)"
    have "mem3 0 = 0" by (simp add: mem3_def)
    then have g3: "get_page mem3 = (0, mem4)"
      using get_page_zero [of mem3] by (simp only: mem4_def)
    have w3: "mem_write mem4 (get_address 0 1) 0 = Inr mem5"
      by (simp add: mem_write_def get_address_def MEM_SIZE_def mem5_def)
    from n1 g3 w3 have s2: "new_process_loop 0 n 1 mem3 = new_process_loop 0 n 2 mem5"
      by (simp add: new_process_loop.simps [of 0 n 1 mem3])
    have m5: "mem5 0 \<noteq> 0" by (simp add: mem5_def mem4_def)
    have m5v: "0 \<le> a \<and> a < 65 \<and> uint (mem5 a) < 64" if "mem5 a \<noteq> mem a" for a
    proof -
      from that m3 have "a = 0 \<or> a = 1"
        by (auto simp: mem5_def mem4_def split: if_splits)
      then show ?thesis by (auto simp: mem5_def mem4_def)
    qed
    from free_count_page0 [of mem5] m5 have fc: "2 + int (free_count mem5) \<le> 65" by simp
    have c: "(0::int) \<le> 0" "(0::int) < 64" "(0::int) \<le> 2" "(65::int) \<le> 256" by simp_all
    from new_process_loop_inv [OF c(1,2,3) m5 fc c(4), of n]
    obtain r mem' where L: "new_process_loop 0 n 2 mem5 = Inr (r, mem')"
      and fr: "\<forall>a. mem' a \<noteq> mem5 a \<longrightarrow>
                ((0 \<le> a \<and> a < 64 \<and> mem5 a = 0) \<or> (0 * 256 + 2 \<le> a \<and> a < 0 * 256 + 65)) \<and>
                uint (mem' a) < 64"
      and cr: "r = Created \<longrightarrow> n \<le> 2 + int (free_count mem5)"
      by blast
    have "0 \<le> a \<and> a < 65 \<and> uint (mem' a) < 64" if ne: "mem' a \<noteq> mem a" for a
    proof (cases "mem' a = mem5 a")
      case True
      with ne m5v [of a] show ?thesis by simp
    next
      case False
      with fr have "((0 \<le> a \<and> a < 64 \<and> mem5 a = 0) \<or> (0 * 256 + 2 \<le> a \<and> a < 0 * 256 + 65)) \<and>
                uint (mem' a) < 64" by blast
      then show ?thesis by auto
    qed
    moreover from cr fc have "r = Created \<longrightarrow> n \<le> 65" by auto
    moreover from s1 s2 L have "new_process_loop 0 n 0 mem = Inr (r, mem')" by simp
    ultimately show ?thesis by blast
  qed
qed

lemma new_process_total:
  assumes "0 \<le> 64 + p" "64 + p < MEM_SIZE"
  shows "\<exists>r mem'. new_process mem p n = Inr (r, mem') \<and>
           (r \<noteq> OOM_page_table \<longrightarrow> uint (mem' (64 + p)) < 64) \<and>
           (r = Created \<longrightarrow> n \<le> 65) \<and>
           (\<forall>a. mem' a \<noteq> mem a \<longrightarrow>
                 (0 \<le> a \<and> a < 64) \<or> a = 64 + p \<or>
                 (uint (fst (get_page mem)) < 64 \<and> uint (fst (get_page mem)) * 256 \<le> a \<and>
                  a < uint (fst (get_page mem)) * 256 + 65))"
proof (cases mem rule: get_page_cases)
  case full
  from full(1) have "new_process mem p n = Inr (OOM_page_table, mem)"
    by (rule new_process_full)
  then show ?thesis by simp
next
  case (free k)
  define mem2 where "mem2 = (mem(k := 1))(64 + p := word_of_int k :: u8)"
  from new_process_alloc [OF free(5) free(1,2), of p n] assms
  have np: "new_process mem p n = new_process_loop k n 0 mem2"
    by (simp add: mem_write_def mem2_def)
  from free(1,2) have s2: "uint (mem2 (64 + p)) < 64"
    by (simp add: mem2_def uint_word_of_int_page)
  from free(1,2) have pk: "uint (fst (get_page mem)) = k"
    by (simp add: free(5) uint_word_of_int_page)
  have "\<exists>r mem'. new_process_loop k n 0 mem2 = Inr (r, mem') \<and>
           (\<forall>a. mem' a \<noteq> mem2 a \<longrightarrow>
                 ((0 \<le> a \<and> a < 64) \<or> (k * 256 \<le> a \<and> a < k * 256 + 65)) \<and> uint (mem' a) < 64) \<and>
           (r = Created \<longrightarrow> n \<le> 65)"
  proof (cases "mem2 0 = 0")
    case True
    have k0: "k = 0"
    proof (rule ccontr)
      assume k: "k \<noteq> 0"
      with free(1,4) have "mem 0 \<noteq> 0" by simp
      moreover from k free(1,2) have "(word_of_int k :: u8) \<noteq> 0"
        by (simp add: word_of_int_page_nonzero)
      ultimately have "mem2 0 \<noteq> 0" using k by (simp add: mem2_def)
      with True show False by simp
    qed
    from new_process_loop_page0_free [of mem2 n] True
    obtain r mem' where "new_process_loop 0 n 0 mem2 = Inr (r, mem')"
      and "\<forall>a. mem' a \<noteq> mem2 a \<longrightarrow> 0 \<le> a \<and> a < 65 \<and> uint (mem' a) < 64"
      and "r = Created \<longrightarrow> n \<le> 65" by blast
    with k0 show ?thesis by auto
  next
    case False
    from free_count_page0 [of mem2] False have fc: "0 + int (free_count mem2) \<le> 63" by simp
    have c: "(0::int) \<le> 0" "(63::int) \<le> 256" by simp_all
    from new_process_loop_inv [OF free(1,2) c(1) False fc c(2), of n]
    obtain r mem' where "new_process_loop k n 0 mem2 = Inr (r, mem')"
      and "\<forall>a. mem' a \<noteq> mem2 a \<longrightarrow>
                ((0 \<le> a \<and> a < 64 \<and> mem2 a = 0) \<or> (k * 256 + 0 \<le> a \<and> a < k * 256 + 63)) \<and>
                mem' a \<noteq> 0 \<and> uint (mem' a) < 64"
      and "r = Created \<longrightarrow> n \<le> 0 + int (free_count mem2)"
      by blast
    with fc show ?thesis by auto
  qed
  then obtain r mem' where L: "new_process_loop k n 0 mem2 = Inr (r, mem')"
    and fr: "\<forall>a. mem' a \<noteq> mem2 a \<longrightarrow>
                 ((0 \<le> a \<and> a < 64) \<or> (k * 256 \<le> a \<and> a < k * 256 + 65)) \<and> uint (mem' a) < 64"
    and cr: "r = Created \<longrightarrow> n \<le> 65" by blast
  have 1: "uint (mem' (64 + p)) < 64"
  proof (cases "mem' (64 + p) = mem2 (64 + p)")
    case True
    with s2 show ?thesis by simp
  next
    case False
    with fr show ?thesis by blast
  qed
  have 2: "(0 \<le> a \<and> a < 64) \<or> a = 64 + p \<or> (k < 64 \<and> k * 256 \<le> a \<and> a < k * 256 + 65)"
    if ne: "mem' a \<noteq> mem a" for a
  proof (cases "mem' a = mem2 a")
    case True
    with ne have "mem2 a \<noteq> mem a" by simp
    then have "a = k \<or> a = 64 + p" by (auto simp: mem2_def split: if_splits)
    with free(1,2) show ?thesis by auto
  next
    case False
    with fr free(2) show ?thesis by blast
  qed
  from np L cr 1 2 show ?thesis unfolding pk by simp
qed

lemma new_process_slot_in_memory:
  assumes "new_process mem p n = Inr (r, mem')" "r \<noteq> OOM_page_table"
  shows "0 \<le> 64 + p \<and> 64 + p < MEM_SIZE"
proof (cases mem rule: get_page_cases)
  case full
  from full(1) have "new_process mem p n = Inr (OOM_page_table, mem)"
    by (rule new_process_full)
  with assms show ?thesis by simp
next
  case (free k)
  from new_process_alloc [OF free(5) free(1,2), of p n] assms(1)
  show ?thesis by (simp add: mem_write_def split: if_splits)
qed

lemma new_process_created:
  assumes np: "new_process mem p n = Inr (Created, mem')" and p: "0 \<le> p" "p < 192"
  obtains k where "0 \<le> k" "k < 64" "mem k = 0" "\<forall>j. 0 \<le> j \<and> j < k \<longrightarrow> mem j \<noteq> 0"
    "uint (fst (get_page mem)) = k" "mem' (p + 64) = word_of_int k" "n \<le> 63"
    "\<forall>u. 0 \<le> u \<and> u < n \<longrightarrow> mem' (k * 256 + u) \<noteq> 0"
proof -
  from p have p64: "p = - 64 \<longrightarrow> mem 0 \<noteq> 0" by simp
  from np p64 show ?thesis
  proof (cases rule: new_process_elim)
    case oom
    then show ?thesis by simp
  next
    case (alloc k mem2)
    have uk: "uint (word_of_int k :: u8) = k"
      using alloc(1,2) by (simp add: uint_word_of_int_page)
    have pt: "uint (fst (get_page mem)) = k"
      by (simp add: alloc(5) uk)
    have slot: "mem' (64 + p) = word_of_int k"
    proof (rule ccontr)
      assume ne: "mem' (64 + p) \<noteq> word_of_int k"
      have "mem2 (64 + p) = word_of_int k" by (simp add: alloc(6))
      with ne alloc(11) have "(0 \<le> 64 + p \<and> 64 + p < 64 \<and> mem2 (64 + p) = 0) \<or>
          (k * 256 \<le> 64 + p \<and> 64 + p < k * 256 + 63)" by metis
      with p alloc(1) show False by (cases "k = 0") auto
    qed
    then have slot': "mem' (p + 64) = word_of_int k" by (simp add: add.commute)
    from alloc(12) have c: "n \<le> 63" "\<forall>u. 0 \<le> u \<and> u < n \<longrightarrow> mem' (k * 256 + u) \<noteq> 0"
      by simp_all
    from that [OF alloc(1-4) pt slot' c] show ?thesis .
  qed
qed

section \<open>Translation for a created process\<close>

text \<open>
  C1, as the code has it. Let \<^verbatim>\<open>new_process(p, n)\<close> succeed for all \<open>n\<close> data pages, and
  let \<open>pt\<close> be the page it allocated as page table, the first page \<^verbatim>\<open>get_page\<close> returned.
  Let \<open>0 \<le> p < 192\<close>, where the slot of \<open>p\<close> lies in page 0 behind the usage table, or
  let the slot of \<open>p\<close> still hold \<open>pt\<close> when \<^verbatim>\<open>new_process\<close> returns. Then
  \<^verbatim>\<open>get_page_table(p)\<close> is \<open>pt\<close>, and for every virtual page \<open>v < n\<close> and every offset \<open>o\<close>
  in \<open>[0, PAGE_SIZE)\<close>, \<^verbatim>\<open>get_physical_addr(p, v * PAGE_SIZE + o)\<close> returns
  \<open>(phys_page << 8) | o\<close>, where \<open>phys_page\<close> is the byte at offset \<open>v\<close> of page \<open>pt\<close>; no
  access of the translation leaves the memory. What the slot held before the call
  does not matter.
\<close>

theorem translation_of_created_process:
  assumes np: "new_process mem p n = Inr (Created, mem')"
    and slot: "(0 \<le> p \<and> p < 192) \<or> get_page_table mem' p = Inr (uint (fst (get_page mem)))"
    and v: "0 \<le> v" "v < n"
    and off: "0 \<le> off" "off < PAGE_SIZE"
  shows "get_page_table mem' p = Inr (uint (fst (get_page mem))) \<and>
         get_physical_addr mem' p (v * PAGE_SIZE + off) =
           Inr (push_bit 8 (uint (mem' (uint (fst (get_page mem)) * PAGE_SIZE + v))) OR off)"
proof -
  from new_process_slot_in_memory [OF np] have b: "0 \<le> 64 + p" "64 + p < MEM_SIZE" by simp_all
  from new_process_total [OF b, of mem n] np
  have s64: "uint (mem' (64 + p)) < 64" and n65: "n \<le> 65" by auto
  define pt where "pt = uint (fst (get_page mem))"
  from b have rd: "get_page_table mem' p = Inr (uint (mem' (p + 64)))"
    by (simp add: get_page_table_def mem_read_def add.commute)
  have gpt: "get_page_table mem' p = Inr pt"
  proof (cases "0 \<le> p \<and> p < 192")
    case True
    then have p1: "0 \<le> p" "p < 192" by simp_all
    from np p1 obtain k where k: "0 \<le> k" "k < 64" "uint (fst (get_page mem)) = k"
      "mem' (p + 64) = word_of_int k"
      by (rule new_process_created)
    with rd show ?thesis by (simp add: pt_def uint_word_of_int_page)
  next
    case False
    with slot show ?thesis by (simp add: pt_def)
  qed
  with rd have pts: "pt = uint (mem' (p + 64))" by simp
  from s64 have pt64: "pt < 64" by (simp add: pts add.commute)
  have pt0: "0 \<le> pt" by (simp add: pts)
  from v n65 have v256: "v < 256" by simp
  from off have sp: "drop_bit 8 (v * 256 + off) = v" "(v * 256 + off) AND 255 = off"
    by (simp_all add: split_virt_addr PAGE_SIZE_def)
  from v v256 have ga: "get_address pt v = pt * 256 + v"
    by (simp add: get_address_add)
  from pt0 pt64 v v256 have inb: "0 \<le> pt * 256 + v" "pt * 256 + v < MEM_SIZE"
    by (simp_all add: MEM_SIZE_def)
  from gpt sp ga inb have tr: "get_physical_addr mem' p (v * 256 + off) =
      Inr (push_bit 8 (uint (mem' (pt * 256 + v))) OR off)"
    by (simp add: get_physical_addr_def Let_def mem_read_def)
  from gpt tr show ?thesis by (simp add: PAGE_SIZE_def pt_def)
qed

theorem translation_of_created_process_witness:
  "get_page_table mem_np_0_2 0 = Inr 1 \<and>
   get_physical_addr mem_np_0_2 0 (1 * PAGE_SIZE + 7) = Inr 775 \<and>
   translation_after [NP 292 1] 292 7 = Inr 519"
proof -
  have g: "uint (fst (get_page initialize_mem)) = 1"
    using get_page_free [of 1 initialize_mem] by (simp add: initialize_mem_def)
  have e: "mem_np_0_2 257 = 3" by (simp add: mem_np_0_2_def)
  have p0: "(0 \<le> (0::int) \<and> (0::int) < 192) \<or>
      get_page_table mem_np_0_2 0 = Inr (uint (fst (get_page initialize_mem)))" by simp
  from translation_of_created_process [OF new_process_np_0_2 p0, of 1 7]
  have a: "get_page_table mem_np_0_2 0 = Inr 1 \<and>
      get_physical_addr mem_np_0_2 0 (1 * PAGE_SIZE + 7) = Inr 775"
    by (simp add: g e PAGE_SIZE_def)
  define m :: memory where "m = (\<lambda>_. 0)(0 := 1, 1 := 1, 356 := 1, 2 := 1, 256 := 2)"
  have np: "new_process initialize_mem 292 1 = Inr (Created, m)"
    by (simp add: new_process_def get_page_def get_page_scan.simps new_process_loop.simps
          mem_write_def get_address_def initialize_mem_def m_def
          PAGE_COUNT_def PAGE_SHIFT_def MEM_SIZE_def)
  have s: "get_page_table m 292 = Inr 1"
    by (simp add: get_page_table_def mem_read_def MEM_SIZE_def m_def)
  then have p292: "(0 \<le> (292::int) \<and> (292::int) < 192) \<or>
      get_page_table m 292 = Inr (uint (fst (get_page initialize_mem)))"
    by (simp add: g)
  have e2: "m 256 = 2" by (simp add: m_def)
  from translation_of_created_process [OF np p292, of 0 7]
  have "get_physical_addr m 292 7 = Inr 519"
    by (simp add: g e2 PAGE_SIZE_def)
  then have "translation_after [NP 292 1] 292 7 = Inr 519"
    by (simp add: translation_after_def np)
  with a show ?thesis by simp
qed

text \<open>
  C1 as stated fails for process 192, whose slot \<open>mem[256]\<close> is the first byte of page 1.
  On the initial memory that slot is unset and \<^verbatim>\<open>np 192 1\<close> succeeds: it allocates page 1
  as page table, writes 1 to the slot and then records data page 2 at offset 0 of
  page 1, which is the slot. \<^verbatim>\<open>get_page_table(192)\<close> now reads 2, the translation goes
  through the empty page 2, and \<^verbatim>\<open>get_physical_addr(192, 5)\<close> is 5, not \<open>(2 << 8) | 5\<close>.
\<close>

theorem translation_of_created_process_counterexample:
  "byte_after [] 256 = Inr 0 \<and>
   report_and_byte_after [] 192 1 256 = Inr (Created, 2) \<and>
   fst (get_page initialize_mem) = 1 \<and>
   translation_after [NP 192 1] 192 5 = Inr 5"
  by code_simp

section \<open>Store and load\<close>

lemma new_process_loop_entries:
  assumes pt: "1 \<le> pt" "pt < 64"
  shows "0 \<le> v \<Longrightarrow> mem 0 \<noteq> 0 \<Longrightarrow> v + int (free_count mem) \<le> 63 \<Longrightarrow> mem pt \<noteq> 0 \<Longrightarrow>
         new_process_loop pt n v mem = Inr (Created, mem') \<Longrightarrow>
         \<forall>u. v \<le> u \<and> u < n \<longrightarrow>
            1 \<le> uint (mem' (pt * 256 + u)) \<and> uint (mem' (pt * 256 + u)) < 64 \<and>
            uint (mem' (pt * 256 + u)) \<noteq> pt"
proof (induct "nat (n - v)" arbitrary: v mem)
  case 0
  then show ?case by auto
next
  case (Suc d)
  then have vn: "v < n" by simp
  show ?case
  proof (cases mem rule: get_page_cases)
    case full
    with vn Suc.prems(5) show ?thesis
      by (simp add: new_process_loop.simps [of pt n v mem])
  next
    case (free k)
    define np :: u8 where "np = word_of_int k"
    define mem1 where "mem1 = mem(k := 1)"
    define A where "A = pt * 256 + v"
    define mem2 where "mem2 = mem1(A := np)"
    from free Suc.prems(2) have k1: "1 \<le> k" by (cases "k = 0") auto
    from free Suc.prems(4) have kpt: "k \<noteq> pt" by auto
    from free k1 have unp: "uint np = k" and npz: "np \<noteq> 0"
      by (simp_all add: np_def uint_word_of_int_page word_of_int_page_nonzero)
    from free have g: "get_page mem = (np, mem1)"
      by (simp only: np_def mem1_def)
    from free have fc: "Suc (free_count mem1) = free_count mem"
      unfolding mem1_def by (intro free_count_alloc)
    with Suc.prems have vB: "v + 1 + int (free_count mem1) \<le> 63" and v256: "v < 256"
      by simp_all
    from v256 Suc.prems(1) have ga: "get_address pt v = A"
      by (simp add: get_address_add A_def)
    from pt Suc.prems(1) v256 have Ab: "256 \<le> A" "A < MEM_SIZE"
      by (simp_all add: A_def MEM_SIZE_def)
    then have w: "mem_write mem1 (get_address pt v) np = Inr mem2"
      by (simp add: mem_write_def ga mem2_def)
    from vn g unp free(2) w Suc.prems(5)
    have L: "new_process_loop pt n (v + 1) mem2 = Inr (Created, mem')"
      by (simp add: new_process_loop.simps [of pt n v mem])
    from Ab Suc.prems(2) k1 have m2: "mem2 0 \<noteq> 0"
      by (simp add: mem2_def mem1_def)
    from Ab pt kpt Suc.prems(4) have m2pt: "mem2 pt \<noteq> 0"
      by (simp add: mem2_def mem1_def)
    have "free_count mem2 \<le> free_count mem1"
      unfolding mem2_def using npz by (rule free_count_write)
    with vB have vB2: "v + 1 + int (free_count mem2) \<le> 63" by simp
    from Suc.hyps(2) have d: "d = nat (n - (v + 1))" by simp
    from Suc.prems(1) have v1: "0 \<le> v + 1" by simp
    from Suc.hyps(1) [OF d v1 m2 vB2 m2pt L]
    have IH: "\<forall>u. v + 1 \<le> u \<and> u < n \<longrightarrow>
            1 \<le> uint (mem' (pt * 256 + u)) \<and> uint (mem' (pt * 256 + u)) < 64 \<and>
            uint (mem' (pt * 256 + u)) \<noteq> pt" .
    from pt have pt0: "0 \<le> pt" by simp
    from new_process_loop_inv [OF pt0 pt(2) v1 m2 vB2, of n] L
    have fr: "\<forall>a. mem' a \<noteq> mem2 a \<longrightarrow>
                (0 \<le> a \<and> a < 64 \<and> mem2 a = 0) \<or> (pt * 256 + (v + 1) \<le> a \<and> a < pt * 256 + 63)"
      by auto
    have "mem' A = mem2 A"
    proof (rule ccontr)
      assume "mem' A \<noteq> mem2 A"
      with fr have "(0 \<le> A \<and> A < 64 \<and> mem2 A = 0) \<or> (pt * 256 + (v + 1) \<le> A \<and> A < pt * 256 + 63)"
        by blast
      with Ab show False by (simp add: A_def)
    qed
    then have "mem' A = np" by (simp add: mem2_def)
    with unp k1 free(2) kpt have here: "1 \<le> uint (mem' A) \<and> uint (mem' A) < 64 \<and> uint (mem' A) \<noteq> pt"
      by simp
    have "1 \<le> uint (mem' (pt * 256 + u)) \<and> uint (mem' (pt * 256 + u)) < 64 \<and>
            uint (mem' (pt * 256 + u)) \<noteq> pt" if u: "v \<le> u \<and> u < n" for u
    proof (cases "u = v")
      case True
      with here show ?thesis by (simp add: A_def)
    next
      case False
      with u have "v + 1 \<le> u \<and> u < n" by simp
      with IH show ?thesis by blast
    qed
    then show ?thesis by blast
  qed
qed

lemma new_process_data_pages:
  assumes np: "new_process mem0 p n = Inr (Created, mem)" and p: "0 \<le> p" "p < 192"
    and m0: "mem0 0 \<noteq> 0"
  obtains k where "1 \<le> k" "k < 64" "mem (p + 64) = word_of_int k"
    "\<forall>u. 0 \<le> u \<and> u < n \<longrightarrow>
        1 \<le> uint (mem (k * 256 + u)) \<and> uint (mem (k * 256 + u)) < 64 \<and>
        uint (mem (k * 256 + u)) \<noteq> k"
proof -
  from np p obtain k' where k': "0 \<le> k'" "k' < 64" "mem0 k' = 0"
    "mem (p + 64) = word_of_int k'" "uint (fst (get_page mem0)) = k'"
    by (rule new_process_created)
  from p have p64: "p = - 64 \<longrightarrow> mem0 0 \<noteq> 0" by simp
  from np p64 show ?thesis
  proof (cases rule: new_process_elim)
    case oom
    then show ?thesis by simp
  next
    case (alloc k mem2)
    from alloc(1,3) m0 have k1: "1 \<le> k" by (cases "k = 0") auto
    from alloc(1,2) alloc(5) have "uint (fst (get_page mem0)) = k"
      by (simp add: uint_word_of_int_page)
    with k' have kk: "k' = k" by simp
    from p k1 alloc(2) m0 have m2: "mem2 0 \<noteq> 0" "mem2 k \<noteq> 0"
      by (simp_all add: alloc(6))
    from free_count_page0 [of mem2] m2 have fc: "0 + int (free_count mem2) \<le> 63" by simp
    from new_process_loop_entries [OF k1 alloc(2) _ m2(1) fc m2(2) alloc(9)]
    have "\<forall>u. 0 \<le> u \<and> u < n \<longrightarrow>
        1 \<le> uint (mem (k * 256 + u)) \<and> uint (mem (k * 256 + u)) < 64 \<and>
        uint (mem (k * 256 + u)) \<noteq> k" by simp
    with that [OF k1 alloc(2)] k'(4) kk show ?thesis by simp
  qed
qed

lemma store_then_load_general:
  assumes tr: "get_physical_addr mem p a = Inr pa"
    and inb: "0 \<le> pa" "pa < MEM_SIZE"
    and slot: "pa \<noteq> p + 64"
    and entry: "pa \<noteq> get_address (uint (mem (p + 64))) (drop_bit 8 a)"
    and x: "0 \<le> x" "x < 256"
  shows "store_value mem p a x = Inr (mem(pa := word_of_int x)) \<and>
         load_after_store mem p a x = Inr x"
proof -
  define mem1 where "mem1 = mem(pa := word_of_int x :: u8)"
  from tr inb have st: "store_value mem p a x = Inr mem1"
    by (simp add: store_value_def mem_write_def mem1_def)
  have s1: "mem1 (p + 64) = mem (p + 64)"
    using slot by (simp add: mem1_def)
  have pt: "get_page_table mem1 p = get_page_table mem p"
    by (simp add: get_page_table_def mem_read_def s1)
  from tr obtain t where t: "get_page_table mem p = Inr t"
    by (auto simp: get_physical_addr_def Let_def split: sum.splits)
  then have tv: "t = uint (mem (p + 64))"
    by (auto simp: get_page_table_def mem_read_def split: if_splits)
  have e1: "mem1 (get_address t (drop_bit 8 a)) = mem (get_address t (drop_bit 8 a))"
    using entry by (simp add: mem1_def tv)
  have "mem_read mem1 (get_address t (drop_bit 8 a)) = mem_read mem (get_address t (drop_bit 8 a))"
    by (simp add: mem_read_def e1)
  with pt t tr have tr1: "get_physical_addr mem1 p a = Inr pa"
    by (simp add: get_physical_addr_def Let_def)
  from x have "uint (mem1 pa) = x"
    by (simp add: mem1_def uint_word_of_int_page)
  with tr1 inb have "load_value mem1 p a = Inr x"
    by (simp add: load_value_def mem_read_def)
  with st show ?thesis
    by (simp add: load_after_store_def mem1_def)
qed

lemma store_then_load_created:
  assumes np: "new_process mem0 p n = Inr (Created, mem)" and p: "0 \<le> p" "p < 192"
    and m0: "mem0 0 \<noteq> 0" and a: "0 \<le> a" "a < n * PAGE_SIZE" and x: "0 \<le> x" "x < 256"
  shows "load_after_store mem p a x = Inr x"
proof -
  from np p m0 obtain k where k: "1 \<le> k" "k < 64" "mem (p + 64) = word_of_int k"
    and ent: "\<forall>u. 0 \<le> u \<and> u < n \<longrightarrow>
        1 \<le> uint (mem (k * 256 + u)) \<and> uint (mem (k * 256 + u)) < 64 \<and>
        uint (mem (k * 256 + u)) \<noteq> k"
    by (rule new_process_data_pages)
  define v where "v = a div 256"
  define off where "off = a mod 256"
  have av: "a = v * 256 + off" and off: "0 \<le> off" "off < 256"
    by (simp_all add: v_def off_def)
  from a av off have v: "0 \<le> v" "v < n"
    by (simp_all add: PAGE_SIZE_def)
  from new_process_created [OF np p] have "n \<le> 63" by blast
  with v have v256: "v < 256" by simp
  from off have sp: "drop_bit 8 a = v" "a AND 255 = off"
    unfolding av by (simp_all add: split_virt_addr)
  define e where "e = uint (mem (k * 256 + v))"
  from ent v have e: "1 \<le> e" "e < 64" "e \<noteq> k" by (simp_all add: e_def)
  from k have uk: "uint (mem (p + 64)) = k" by (simp add: uint_word_of_int_page)
  from p have gpt: "get_page_table mem p = Inr k"
    by (simp add: get_page_table_def mem_read_def MEM_SIZE_def uk)
  from v v256 have ga: "get_address k v = k * 256 + v" by (simp add: get_address_add)
  from off have gp: "push_bit 8 e OR off = e * 256 + off"
    using get_address_add [of off e] by (simp add: get_address_def PAGE_SHIFT_def)
  from k v v256 have inb: "0 \<le> k * 256 + v" "k * 256 + v < MEM_SIZE"
    by (simp_all add: MEM_SIZE_def)
  from gpt sp ga inb gp have tr: "get_physical_addr mem p a = Inr (e * 256 + off)"
    by (simp add: get_physical_addr_def Let_def mem_read_def e_def)
  from e off have b: "0 \<le> e * 256 + off" "e * 256 + off < MEM_SIZE"
    by (simp_all add: MEM_SIZE_def)
  from e off p have s: "e * 256 + off \<noteq> p + 64" by simp
  from e off v v256 have "e * 256 + off \<noteq> k * 256 + v"
  proof -
    from e(3) have "e < k \<or> k < e" by auto
    with off v v256 show ?thesis by auto
  qed
  then have en: "e * 256 + off \<noteq> get_address (uint (mem (p + 64))) (drop_bit 8 a)"
    by (simp add: uk sp ga)
  from store_then_load_general [OF tr b s en x] show ?thesis by simp
qed

text \<open>
  C7, as the code has it. For any process number \<open>p\<close>, virtual address \<open>a\<close> and byte
  value \<open>x\<close>: when the translation of \<open>a\<close> for \<open>p\<close> is a physical address inside the
  memory that is neither the process-table slot of \<open>p\<close> nor the page-table entry the
  translation reads, \<^verbatim>\<open>store_value(p, a, x)\<close> followed by \<^verbatim>\<open>load_value(p, a)\<close> yields \<open>x\<close>.
  This is the case for every address inside the \<open>n\<close> data pages of a process that
  \<^verbatim>\<open>new_process(p, n)\<close> has just created, for \<open>0 \<le> p < 192\<close> and a starting state with
  page 0 marked allocated.
\<close>

theorem store_then_load:
  "(get_physical_addr mem p a = Inr pa \<and> 0 \<le> pa \<and> pa < MEM_SIZE \<and> pa \<noteq> p + 64 \<and>
    pa \<noteq> get_address (uint (mem (p + 64))) (drop_bit 8 a) \<and> 0 \<le> x \<and> x < 256 \<longrightarrow>
      store_value mem p a x = Inr (mem(pa := word_of_int x)) \<and>
      load_after_store mem p a x = Inr x) \<and>
   (new_process mem0 p n = Inr (Created, mem) \<and> 0 \<le> p \<and> p < 192 \<and> mem0 0 \<noteq> 0 \<and>
    0 \<le> a \<and> a < n * PAGE_SIZE \<and> 0 \<le> x \<and> x < 256 \<longrightarrow>
      load_after_store mem p a x = Inr x)"
  using store_then_load_general [of mem p a pa x] store_then_load_created [of mem0 p n mem a x]
  by blast

theorem store_then_load_witness:
  "get_physical_addr mem_np_0_2 0 0 = Inr 512 \<and> load_after_store mem_np_0_2 0 0 42 = Inr 42 \<and>
   load_after_store mem_np_0_2 0 300 7 = Inr 7"
proof -
  have tr: "get_physical_addr mem_np_0_2 0 0 = Inr 512"
    by (simp add: get_physical_addr_def get_page_table_def mem_read_def get_address_def
          mem_np_0_2_def MEM_SIZE_def PAGE_SHIFT_def)
  have e: "(512::int) \<noteq> get_address (uint (mem_np_0_2 (0 + 64))) (drop_bit 8 0)"
    by (simp add: get_address_def mem_np_0_2_def PAGE_SHIFT_def)
  have i0: "initialize_mem 0 \<noteq> 0" by (simp add: initialize_mem_def)
  from store_then_load [of mem_np_0_2 0 0 512 42 initialize_mem 2] tr e new_process_np_0_2 i0
  have "load_after_store mem_np_0_2 0 0 42 = Inr 42"
    by (simp add: MEM_SIZE_def PAGE_SIZE_def)
  moreover from store_then_load [of mem_np_0_2 0 300 0 7 initialize_mem 2] new_process_np_0_2 i0
  have "load_after_store mem_np_0_2 0 300 7 = Inr 7"
    by (simp add: PAGE_SIZE_def)
  ultimately show ?thesis using tr by simp
qed

text \<open>
  C7 as stated fails for a process that was never created. On the initial memory the
  slot of process 0 is 0, so page 0 serves as its page table; virtual address 514 is
  page 2, offset 2, and entry 2 of page 0 is 0, so the store goes to physical address
  2, which is that very entry. The load then translates through the stored 5 to
  physical address \<open>5 * 256 + 2\<close> and reads 0.
\<close>

theorem store_then_load_counterexample:
  "load_after_store initialize_mem 0 514 5 = Inr 0"
  by code_simp

section \<open>Memory safety of process creation\<close>




section \<open>What a failed creation leaves alone\<close>

lemma byte_nonzero_uint: "(b :: u8) \<noteq> 0 \<Longrightarrow> 1 \<le> uint b"
proof -
  assume "b \<noteq> 0"
  then have "uint b \<noteq> 0" by (simp add: uint_0_iff)
  moreover have "0 \<le> uint b" by simp
  ultimately show ?thesis by linarith
qed





section \<open>Killing a created process\<close>

lemma deallocate_page_byte:
  "deallocate_page mem (uint (b :: u8)) = Inr (mem(uint b := 0))"
proof -
  have "uint b < 256" using uint_bounded [of b] by simp
  then show ?thesis
    by (simp add: deallocate_page_def mem_write_def MEM_SIZE_def)
qed

lemma kill_process_loop_frame:
  "kill_process_loop pt i mem = Inr mem' \<Longrightarrow>
   \<forall>a. mem' a \<noteq> mem a \<longrightarrow> mem' a = 0 \<and> 1 \<le> a \<and> a < 256"
proof (induct "nat (64 - i)" arbitrary: i mem)
  case 0
  from "0.hyps" have "\<not> i < 64" by simp
  then have "kill_process_loop pt i mem = Inr mem"
    by (simp add: kill_process_loop.simps [of pt i mem] PAGE_COUNT_def)
  with "0.prems" have "mem' = mem" by simp
  then show ?case by simp
next
  case (Suc d)
  then have lt: "i < 64" by simp
  from Suc.hyps(2) have d: "d = nat (64 - (i + 1))" by simp
  from Suc.prems lt obtain b where rd: "mem_read mem (get_address pt i) = Inr b"
    by (cases "mem_read mem (get_address pt i)")
       (simp_all add: kill_process_loop.simps [of pt i mem] PAGE_COUNT_def)
  show ?case
  proof (cases "b = 0")
    case True
    with Suc.prems lt rd have "kill_process_loop pt (i + 1) mem = Inr mem'"
      by (simp add: kill_process_loop.simps [of pt i mem] PAGE_COUNT_def)
    from Suc.hyps(1) [OF d this] show ?thesis .
  next
    case False
    define mem1 where "mem1 = mem(uint b := 0)"
    from Suc.prems lt rd False have L: "kill_process_loop pt (i + 1) mem1 = Inr mem'"
      by (simp add: kill_process_loop.simps [of pt i mem] PAGE_COUNT_def
            deallocate_page_byte mem1_def)
    from Suc.hyps(1) [OF d L]
    have IH: "\<forall>a. mem' a \<noteq> mem1 a \<longrightarrow> mem' a = 0 \<and> 1 \<le> a \<and> a < 256" .
    from False have ub: "1 \<le> uint b" "uint b < 256"
      using byte_nonzero_uint [of b] uint_bounded [of b] by simp_all
    have "mem' a = 0 \<and> 1 \<le> a \<and> a < 256" if ne: "mem' a \<noteq> mem a" for a
    proof (cases "mem' a = mem1 a")
      case False
      with IH show ?thesis by blast
    next
      case True
      with ne have "mem1 a \<noteq> mem a" by simp
      then have "a = uint b" by (auto simp: mem1_def split: if_splits)
      with True ub show ?thesis by (simp add: mem1_def)
    qed
    then show ?thesis by blast
  qed
qed

lemma kill_process_loop_frees:
  assumes "1 \<le> pt" "pt < 64" "0 \<le> i"
  shows "\<exists>mem'. kill_process_loop pt i mem = Inr mem' \<and>
           (\<forall>j. i \<le> j \<and> j < 64 \<and> mem (pt * 256 + j) \<noteq> 0 \<longrightarrow>
                  mem' (uint (mem (pt * 256 + j))) = 0)"
  using assms(3)
proof (induct "nat (64 - i)" arbitrary: i mem)
  case 0
  then have "kill_process_loop pt i mem = Inr mem"
    by (simp add: kill_process_loop.simps [of pt i mem] PAGE_COUNT_def)
  moreover from 0 have "\<forall>j. i \<le> j \<and> j < 64 \<and> mem (pt * 256 + j) \<noteq> 0 \<longrightarrow>
                  mem (uint (mem (pt * 256 + j))) = 0" by auto
  ultimately show ?case by blast
next
  case (Suc d)
  then have lt: "i < 64" by simp
  from Suc.hyps(2) have d: "d = nat (64 - (i + 1))" by simp
  from Suc.prems have i1: "0 \<le> i + 1" by simp
  from Suc.prems lt have ga: "get_address pt i = pt * 256 + i"
    by (simp add: get_address_add)
  from assms(1,2) Suc.prems lt have rd: "mem_read mem (get_address pt i) = Inr (mem (pt * 256 + i))"
    by (simp add: ga mem_read_def MEM_SIZE_def)
  define b where "b = mem (pt * 256 + i)"
  show ?case
  proof (cases "b = 0")
    case True
    with lt rd have st: "kill_process_loop pt i mem = kill_process_loop pt (i + 1) mem"
      by (simp add: kill_process_loop.simps [of pt i mem] PAGE_COUNT_def b_def)
    from Suc.hyps(1) [OF d i1, of mem] obtain mem' where
      L: "kill_process_loop pt (i + 1) mem = Inr mem'"
      and F: "\<forall>j. i + 1 \<le> j \<and> j < 64 \<and> mem (pt * 256 + j) \<noteq> 0 \<longrightarrow>
                  mem' (uint (mem (pt * 256 + j))) = 0" by blast
    have "mem' (uint (mem (pt * 256 + j))) = 0" if j: "i \<le> j \<and> j < 64 \<and> mem (pt * 256 + j) \<noteq> 0" for j
    proof -
      from j True have "j \<noteq> i" by (auto simp: b_def)
      with j have "i + 1 \<le> j \<and> j < 64 \<and> mem (pt * 256 + j) \<noteq> 0" by simp
      with F show ?thesis by blast
    qed
    with st L show ?thesis by auto
  next
    case False
    define mem1 where "mem1 = mem(uint b := 0)"
    from lt rd False have st: "kill_process_loop pt i mem = kill_process_loop pt (i + 1) mem1"
      by (simp add: kill_process_loop.simps [of pt i mem] PAGE_COUNT_def b_def [symmetric]
            deallocate_page_byte mem1_def)
    from Suc.hyps(1) [OF d i1, of mem1] obtain mem' where
      L: "kill_process_loop pt (i + 1) mem1 = Inr mem'"
      and F: "\<forall>j. i + 1 \<le> j \<and> j < 64 \<and> mem1 (pt * 256 + j) \<noteq> 0 \<longrightarrow>
                  mem' (uint (mem1 (pt * 256 + j))) = 0" by blast
    from kill_process_loop_frame [OF L]
    have fr: "\<forall>a. mem' a \<noteq> mem1 a \<longrightarrow> mem' a = 0 \<and> 1 \<le> a \<and> a < 256" .
    have ub: "uint b < 256" using uint_bounded [of b] by simp
    have same: "mem1 (pt * 256 + j) = mem (pt * 256 + j)" if "0 \<le> j" for j
      using that assms(1) ub by (simp add: mem1_def)
    have "mem' (uint (mem (pt * 256 + j))) = 0" if j: "i \<le> j \<and> j < 64 \<and> mem (pt * 256 + j) \<noteq> 0" for j
    proof (cases "j = i")
      case True
      have "mem1 (uint b) = 0" by (simp add: mem1_def)
      with fr have "mem' (uint b) = 0" by metis
      with True show ?thesis by (simp add: b_def)
    next
      case False
      with j Suc.prems have "i + 1 \<le> j \<and> j < 64 \<and> mem1 (pt * 256 + j) \<noteq> 0"
        by (simp add: same)
      with F have "mem' (uint (mem1 (pt * 256 + j))) = 0" by blast
      with j Suc.prems show ?thesis by (simp add: same)
    qed
    with st L show ?thesis by auto
  qed
qed


text \<open>
  C3, as the code has it. Let \<^verbatim>\<open>new_process(p, n)\<close> succeed for all \<open>n\<close> data pages from
  a state in which page 0 is marked allocated, and let \<open>pt\<close> be the page it allocated as
  page table, the first page \<^verbatim>\<open>get_page\<close> returned. Let \<open>0 \<le> p < 192\<close>, or let the slot of
  \<open>p\<close> hold \<open>pt\<close> when \<^verbatim>\<open>new_process\<close> returns. The pages of \<open>p\<close> are still mapped in a
  later memory when the slot of \<open>p\<close> reads there as \<^verbatim>\<open>new_process\<close> left it and page \<open>pt\<close>
  holds, at every offset \<open>v < n\<close>, the entry \<^verbatim>\<open>new_process\<close> recorded. In every such
  memory, whatever else has happened to it, \<^verbatim>\<open>kill_process(p)\<close> returns, and afterwards
  the usage byte of page \<open>pt\<close> is 0; each entry recorded at an offset \<open>v < n\<close> names a
  page (it is non-zero), and the usage byte of that page is 0.
\<close>

theorem kill_process_frees_pages:
  assumes np: "new_process mem p n = Inr (Created, mem1)"
    and m0: "mem 0 \<noteq> 0"
    and own: "(0 \<le> p \<and> p < 192) \<or> get_page_table mem1 p = Inr (uint (fst (get_page mem)))"
    and slot: "get_page_table memk p = get_page_table mem1 p"
    and ent: "\<forall>v. 0 \<le> v \<and> v < n \<longrightarrow>
                memk (uint (fst (get_page mem)) * 256 + v) =
                mem1 (uint (fst (get_page mem)) * 256 + v)"
  shows "\<exists>mem2. kill_process memk p = Inr mem2 \<and>
           mem2 (uint (fst (get_page mem))) = 0 \<and>
           (\<forall>v. 0 \<le> v \<and> v < n \<longrightarrow>
                  mem1 (uint (fst (get_page mem)) * 256 + v) \<noteq> 0 \<and>
                  mem2 (uint (mem1 (uint (fst (get_page mem)) * 256 + v))) = 0)"
proof -
  from m0 have p64: "p = - 64 \<longrightarrow> mem 0 \<noteq> 0" by simp
  from np p64 show ?thesis
  proof (cases rule: new_process_elim)
    case oom
    then show ?thesis by simp
  next
    case (alloc k mem2)
    from alloc(1,3) m0 have k1: "1 \<le> k" by (cases "k = 0") auto
    have pk: "uint (fst (get_page mem)) = k"
      using alloc(1,2) by (simp add: alloc(5) uint_word_of_int_page)
    have own1: "get_page_table mem1 p = Inr k"
    proof (cases "0 \<le> p \<and> p < 192")
      case True
      then have p1: "0 \<le> p" "p < 192" by simp_all
      from np p1 obtain k' where k': "0 \<le> k'" "k' < 64" "uint (fst (get_page mem)) = k'"
        "mem1 (p + 64) = word_of_int k'"
        by (rule new_process_created)
      with alloc(7,8) pk show ?thesis
        by (simp add: get_page_table_def mem_read_def add.commute uint_word_of_int_page)
    next
      case False
      with own pk show ?thesis by simp
    qed
    with slot have gpt: "get_page_table memk p = Inr k" by simp
    from kill_process_loop_frees [OF k1 alloc(2), of 0 memk] obtain mem' where
      L: "kill_process_loop k 0 memk = Inr mem'"
      and F: "\<forall>j. 0 \<le> j \<and> j < 64 \<and> memk (k * 256 + j) \<noteq> 0 \<longrightarrow>
                  mem' (uint (memk (k * 256 + j))) = 0" by auto
    define mem3 where "mem3 = mem'(k := 0)"
    from k1 alloc(2) have "deallocate_page mem' k = Inr mem3"
      by (simp add: deallocate_page_def mem_write_def MEM_SIZE_def mem3_def)
    with gpt L have K: "kill_process memk p = Inr mem3"
      by (simp add: kill_process_def)
    have 1: "mem3 k = 0" by (simp add: mem3_def)
    from alloc(12) have n63: "n \<le> 63"
      and nz: "\<forall>u. 0 \<le> u \<and> u < n \<longrightarrow> mem1 (k * 256 + u) \<noteq> 0" by simp_all
    have 2: "mem1 (k * 256 + v) \<noteq> 0 \<and> mem3 (uint (mem1 (k * 256 + v))) = 0"
      if v: "0 \<le> v \<and> v < n" for v
    proof -
      from v nz have a: "mem1 (k * 256 + v) \<noteq> 0" by blast
      from v ent have e: "memk (k * 256 + v) = mem1 (k * 256 + v)" unfolding pk by blast
      from v n63 a e have "0 \<le> v \<and> v < 64 \<and> memk (k * 256 + v) \<noteq> 0" by simp
      with F have "mem' (uint (memk (k * 256 + v))) = 0" by blast
      with a e show ?thesis by (simp add: mem3_def)
    qed
    from K 1 2 show ?thesis unfolding pk by blast
  qed
qed

theorem kill_process_frees_pages_witness:
  "byte_after [NP 0 2, SB 0 0 42, KP 0] 1 = Inr 0 \<and>
   mem_np_0_2 (1 * 256 + 1) = 3 \<and>
   byte_after [NP 0 2, SB 0 0 42, KP 0] 3 = Inr 0"
proof -
  define memk :: memory where "memk = mem_np_0_2(512 := 42)"
  have g: "uint (fst (get_page initialize_mem)) = 1"
    using get_page_free [of 1 initialize_mem] by (simp add: initialize_mem_def)
  have i0: "initialize_mem 0 \<noteq> 0" by (simp add: initialize_mem_def)
  have e: "mem_np_0_2 (1 * 256 + 1) = 3" by (simp add: mem_np_0_2_def)
  have own: "(0 \<le> (0::int) \<and> (0::int) < 192) \<or>
      get_page_table mem_np_0_2 0 = Inr (uint (fst (get_page initialize_mem)))" by simp
  have slot: "get_page_table memk 0 = get_page_table mem_np_0_2 0"
    by (simp add: get_page_table_def mem_read_def memk_def)
  have ent: "\<forall>v. 0 \<le> v \<and> v < 2 \<longrightarrow>
      memk (uint (fst (get_page initialize_mem)) * 256 + v) =
      mem_np_0_2 (uint (fst (get_page initialize_mem)) * 256 + v)"
    by (simp add: g memk_def)
  have st: "store_value mem_np_0_2 0 0 42 = Inr memk"
    by (simp add: store_value_def get_physical_addr_def get_page_table_def mem_read_def
          mem_write_def get_address_def mem_np_0_2_def memk_def MEM_SIZE_def PAGE_SHIFT_def)
  from kill_process_frees_pages [OF new_process_np_0_2 i0 own slot ent] g
  obtain mem2 where K: "kill_process memk 0 = Inr mem2" and a: "mem2 1 = 0"
    and b: "\<forall>v. 0 \<le> v \<and> v < 2 \<longrightarrow> mem_np_0_2 (1 * 256 + v) \<noteq> 0 \<and>
                  mem2 (uint (mem_np_0_2 (1 * 256 + v))) = 0"
    by auto
  from b have "0 \<le> (1::int) \<and> (1::int) < 2 \<longrightarrow> mem_np_0_2 (1 * 256 + 1) \<noteq> 0 \<and>
      mem2 (uint (mem_np_0_2 (1 * 256 + 1))) = 0"
    by (rule spec)
  with e have c: "mem2 3 = 0" by simp
  from K st have "run initialize_mem [NP 0 2, SB 0 0 42, KP 0] = Inr mem2"
    by (simp add: new_process_np_0_2)
  with a c e show ?thesis
    by (simp add: byte_after_def mem_read_def MEM_SIZE_def)
qed

text \<open>
  C3 as stated fails in two ways. When the page table is page 0: after \<^verbatim>\<open>kp 0\<close> on the
  initial memory page 0 is free; \<^verbatim>\<open>np 0 2\<close> then succeeds with page 0 as page table (the
  slot \<open>mem[64]\<close> holds 0) and records data page 2 at offset 1. \<^verbatim>\<open>kp 0\<close> walks page 0 while
  it clears usage bytes in it: entry 0 makes it clear entry 1 before reading it, and
  page 2 stays marked used. And when the slot lies in the page table: on the initial
  memory \<^verbatim>\<open>np 192 1\<close> succeeds with page 1 as page table, whose first byte \<open>mem[256]\<close> is
  both the slot of process 192 and entry 0; the entry, data page 2, overwrites the
  slot, \<^verbatim>\<open>kp 192\<close> takes page 2 for the page table, and page 1 stays marked used.
\<close>

theorem kill_process_frees_pages_counterexample:
  "report_and_byte_after [KP 0] 0 2 64 = Inr (Created, 0) \<and>
   byte_after [KP 0, NP 0 2] 1 = Inr 2 \<and>
   byte_after [KP 0, NP 0 2, KP 0] 2 = Inr 1 \<and>
   report_and_byte_after [] 192 1 256 = Inr (Created, 2) \<and>
   fst (get_page initialize_mem) = 1 \<and>
   byte_after [NP 192 1, KP 192] 1 = Inr 1"
  by code_simp

section \<open>Killing a process that was never created\<close>

lemma deallocate_page_one: "deallocate_page mem 1 = Inr (mem(1 := 0))"
  by (simp add: deallocate_page_def mem_write_def MEM_SIZE_def)

lemma kill_process_loop_page0:
  assumes u: "\<forall>j. 0 \<le> j \<and> j < 64 \<longrightarrow> mem j = 0 \<or> mem j = 1" and m1: "mem 1 = 0"
  shows "0 \<le> i \<Longrightarrow> kill_process_loop 0 i mem = Inr mem"
proof (induct "nat (64 - i)" arbitrary: i)
  case 0
  then show ?case
    by (simp add: kill_process_loop.simps [of 0 i mem] PAGE_COUNT_def)
next
  case (Suc d)
  then have lt: "i < 64" by simp
  from Suc.hyps(2) have d: "d = nat (64 - (i + 1))" by simp
  from Suc.prems have i1: "0 \<le> i + 1" by simp
  from Suc.hyps(1) [OF d i1] have IH: "kill_process_loop 0 (i + 1) mem = Inr mem" .
  from Suc.prems lt have ga: "get_address 0 i = i" by (simp add: get_address_add)
  from Suc.prems lt have rd: "mem_read mem (get_address 0 i) = Inr (mem i)"
    by (simp add: ga mem_read_def MEM_SIZE_def)
  show ?case
  proof (cases "mem i = 0")
    case True
    with lt rd IH show ?thesis
      by (simp add: kill_process_loop.simps [of 0 i mem] PAGE_COUNT_def)
  next
    case False
    with u Suc.prems lt have one: "mem i = 1" by blast
    have "mem(1 := 0) = mem" using m1 by (simp add: fun_upd_idem)
    then have "deallocate_page mem (uint (mem i)) = Inr mem"
      by (simp add: deallocate_page_one one)
    with lt rd False IH show ?thesis
      by (simp add: kill_process_loop.simps [of 0 i mem] PAGE_COUNT_def)
  qed
qed

lemma kill_process_loop_page0_step:
  assumes u: "\<forall>j. 0 \<le> j \<and> j < 64 \<longrightarrow> mem j = 0 \<or> mem j = 1" and i: "0 \<le> i" "i < 64"
  shows "kill_process_loop 0 i mem =
           kill_process_loop 0 (i + 1) (if mem i = 0 then mem else mem(1 := 0))"
proof -
  from i have ga: "get_address 0 i = i" by (simp add: get_address_add)
  from i have rd: "mem_read mem (get_address 0 i) = Inr (mem i)"
    by (simp add: ga mem_read_def MEM_SIZE_def)
  show ?thesis
  proof (cases "mem i = 0")
    case True
    with i rd show ?thesis
      by (simp add: kill_process_loop.simps [of 0 i mem] PAGE_COUNT_def)
  next
    case False
    with u i have one: "mem i = 1" by blast
    have "deallocate_page mem (uint (mem i)) = Inr (mem(1 := 0))"
      by (simp add: deallocate_page_one one)
    with i rd False show ?thesis
      by (simp add: kill_process_loop.simps [of 0 i mem] PAGE_COUNT_def)
  qed
qed

text \<open>
  C9, as the code has it. Let the process-table slot of \<open>p\<close> lie inside the memory and
  hold 0, in a memory whose usage bytes all read 0 or 1, as the allocator writes them.
  Then \<^verbatim>\<open>kill_process(p)\<close> takes page 0 as the page table, deallocates page 1 for the
  entries that read 1 and then page 0 itself: it returns the memory with the usage
  bytes of pages 0 and 1 set to 0 and every other byte unchanged.
\<close>

theorem kill_process_never_created:
  assumes slot: "0 \<le> p + 64" "p + 64 < MEM_SIZE" "mem (p + 64) = 0"
    and u: "\<forall>j. 0 \<le> j \<and> j < PAGE_COUNT \<longrightarrow> mem j = 0 \<or> mem j = 1"
  shows "kill_process mem p = Inr (mem(1 := 0, 0 := 0))"
proof -
  from slot have gpt: "get_page_table mem p = Inr 0"
    by (simp add: get_page_table_def mem_read_def)
  from u have u0: "\<forall>j. 0 \<le> j \<and> j < 64 \<longrightarrow> mem j = 0 \<or> mem j = 1"
    by (simp add: PAGE_COUNT_def)
  define mem1 where "mem1 = mem(1 := 0)"
  have u1: "\<forall>j. 0 \<le> j \<and> j < 64 \<longrightarrow> mem1 j = 0 \<or> mem1 j = 1"
    using u0 by (simp add: mem1_def)
  have z1: "mem1 1 = 0" by (simp add: mem1_def)
  have idem: "mem1(1 := 0) = mem1" by (simp add: mem1_def)
  have same: "mem 1 = 0 \<Longrightarrow> mem = mem1" by (simp add: mem1_def fun_upd_idem)
  have from2: "kill_process_loop 0 2 mem1 = Inr mem1"
    using kill_process_loop_page0 [OF u1 z1, of 2] by simp
  have from1: "kill_process_loop 0 1 m = Inr mem1" if "m = mem \<or> m = mem1" for m
  proof -
    from that u0 u1 have um: "\<forall>j. 0 \<le> j \<and> j < 64 \<longrightarrow> m j = 0 \<or> m j = 1" by blast
    have "(if m 1 = 0 then m else m(1 := 0)) = mem1"
      using that same idem by (auto simp: mem1_def)
    with kill_process_loop_page0_step [OF um, of 1] from2 show ?thesis by simp
  qed
  have "(if mem 0 = 0 then mem else mem(1 := 0)) = mem \<or>
        (if mem 0 = 0 then mem else mem(1 := 0)) = mem1"
    by (simp add: mem1_def)
  from from1 [OF this] kill_process_loop_page0_step [OF u0, of 0]
  have "kill_process_loop 0 0 mem = Inr mem1" by simp
  moreover have "deallocate_page mem1 0 = Inr (mem1(0 := 0))"
    by (simp add: deallocate_page_def mem_write_def MEM_SIZE_def)
  ultimately show ?thesis using gpt
    by (simp add: kill_process_def mem1_def)
qed

theorem kill_process_never_created_witness:
  "kill_process initialize_mem 0 = Inr (initialize_mem(1 := 0, 0 := 0)) \<and>
   kill_process mem_np_0_2 5 = Inr (mem_np_0_2(1 := 0, 0 := 0))"
proof -
  have a: "(0::int) \<le> 0 + 64" "(0::int) + 64 < MEM_SIZE" "initialize_mem (0 + 64) = 0"
    by (simp_all add: MEM_SIZE_def initialize_mem_def)
  have b: "\<forall>j. 0 \<le> j \<and> j < PAGE_COUNT \<longrightarrow> initialize_mem j = 0 \<or> initialize_mem j = 1"
    by (simp add: initialize_mem_def)
  have c: "(0::int) \<le> 5 + 64" "(5::int) + 64 < MEM_SIZE" "mem_np_0_2 (5 + 64) = 0"
    by (simp_all add: MEM_SIZE_def mem_np_0_2_def)
  have d: "\<forall>j. 0 \<le> j \<and> j < PAGE_COUNT \<longrightarrow> mem_np_0_2 j = 0 \<or> mem_np_0_2 j = 1"
    by (simp add: mem_np_0_2_def PAGE_COUNT_def)
  from kill_process_never_created [OF a b] kill_process_never_created [OF c d]
  show ?thesis by simp
qed

text \<open>
  C9 as stated fails, because the usage bytes of allocated pages do not always read 1.
  After \<^verbatim>\<open>kp 5\<close> on the initial memory page 0 is free, and \<^verbatim>\<open>np 0 3\<close> then takes page 0 as
  the page table of process 0: it records the data pages 1, 2 and 3 in \<open>mem[0]\<close>, \<open>mem[1]\<close>
  and \<open>mem[2]\<close>, so the usage byte of page 2 reads 3. The slot \<open>mem[71]\<close> of process 7 holds
  0, and \<^verbatim>\<open>kp 7\<close> walks page 0: entry 2 makes it deallocate page 3, whose usage byte
  was 1 and is 0 afterwards.
\<close>

theorem kill_process_never_created_counterexample:
  "byte_after [KP 5, NP 0 3] 71 = Inr 0 \<and>
   byte_after [KP 5, NP 0 3] 2 = Inr 3 \<and>
   byte_after [KP 5, NP 0 3] 3 = Inr 1 \<and>
   byte_after [KP 5, NP 0 3, KP 7] 3 = Inr 0"
  by code_simp

section \<open>The usage byte of page 0\<close>

lemma exec_keeps_page0:
  assumes m0: "mem 0 \<noteq> 0" and g: "keeps_page0 mem c" and ex: "exec mem c = Inr mem1"
  shows "mem1 0 \<noteq> 0"
proof (cases c)
  case (NP p n)
  with ex obtain r where np: "new_process mem p n = Inr (r, mem1)"
    by (auto split: sum.splits)
  from m0 have p64: "p = - 64 \<longrightarrow> mem 0 \<noteq> 0" by simp
  from np p64 show ?thesis
  proof (cases rule: new_process_elim)
    case oom
    with m0 show ?thesis by simp
  next
    case (alloc k mem2)
    then show ?thesis by simp
  qed
next
  case (KP p)
  with ex have k: "kill_process mem p = Inr mem1" by simp
  then obtain pt where pt: "get_page_table mem p = Inr pt"
    by (cases "get_page_table mem p") (simp_all add: kill_process_def)
  with k obtain mem' where L: "kill_process_loop pt 0 mem = Inr mem'"
    and D: "deallocate_page mem' pt = Inr mem1"
    by (cases "kill_process_loop pt 0 mem") (simp_all add: kill_process_def)
  from g KP pt have ptn: "pt \<noteq> 0" by simp
  from kill_process_loop_frame [OF L] have "mem' 0 = mem 0" by force
  moreover from D ptn have "mem1 0 = mem' 0"
    by (auto simp: deallocate_page_def mem_write_def split: if_splits)
  ultimately show ?thesis using m0 by simp
next
  case (SB p a x)
  with ex have s: "store_value mem p a x = Inr mem1" by simp
  then obtain pa where pa: "get_physical_addr mem p a = Inr pa"
    by (cases "get_physical_addr mem p a") (simp_all add: store_value_def)
  with s have w: "mem_write mem pa (word_of_int x) = Inr mem1"
    by (simp add: store_value_def)
  show ?thesis
  proof (cases "pa = 0")
    case False
    with w have "mem1 0 = mem 0"
      by (auto simp: mem_write_def split: if_splits)
    with m0 show ?thesis by simp
  next
    case True
    with g SB pa have "(word_of_int x :: u8) \<noteq> 0" by simp
    with w True show ?thesis
      by (auto simp: mem_write_def split: if_splits)
  qed
next
  case (LB p a)
  with ex have "mem1 = mem" by (auto split: sum.splits)
  with m0 show ?thesis by simp
qed

text \<open>
  The guard excludes no more than it must: a command outside it that returns leaves
  the usage byte of page 0 at 0, whatever the memory it ran in.
\<close>

lemma exec_clears_page0:
  assumes g: "\<not> keeps_page0 mem c" and ex: "exec mem c = Inr mem1"
  shows "mem1 0 = 0"
proof (cases c)
  case (NP p n)
  with g show ?thesis by simp
next
  case (KP p)
  with g have pt: "get_page_table mem p = Inr 0" by simp
  from KP ex have k: "kill_process mem p = Inr mem1" by simp
  with pt obtain mem' where D: "deallocate_page mem' 0 = Inr mem1"
    by (cases "kill_process_loop 0 0 mem") (simp_all add: kill_process_def)
  then show ?thesis
    by (auto simp: deallocate_page_def mem_write_def split: if_splits)
next
  case (SB p a x)
  with g have pa: "get_physical_addr mem p a = Inr 0" and z: "(word_of_int x :: u8) = 0"
    by simp_all
  from SB ex have "store_value mem p a x = Inr mem1" by simp
  with pa z show ?thesis
    by (auto simp: store_value_def mem_write_def split: if_splits)
next
  case (LB p a)
  with g show ?thesis by simp
qed

lemma run_keeps_page0:
  "mem 0 \<noteq> 0 \<Longrightarrow> guarded mem cs \<Longrightarrow> run mem cs = Inr mem' \<Longrightarrow> mem' 0 \<noteq> 0"
proof (induct cs arbitrary: mem)
  case Nil
  then show ?case by simp
next
  case (Cons c cs)
  from Cons.prems(3) obtain mem1 where ex: "exec mem c = Inr mem1" and r: "run mem1 cs = Inr mem'"
    by (cases "exec mem c") simp_all
  from Cons.prems(2) ex have g: "keeps_page0 mem c" "guarded mem1 cs" by simp_all
  from exec_keeps_page0 [OF Cons.prems(1) g(1) ex] have "mem1 0 \<noteq> 0" .
  from Cons.hyps [OF this g(2) r] show ?case .
qed

text \<open>
  C2, as the code has it. In every state reached from the initial memory by
  \<^verbatim>\<open>new_process\<close>, \<^verbatim>\<open>kill_process\<close>, \<^verbatim>\<open>store_value\<close> and \<^verbatim>\<open>load_value\<close> operations, where
  each \<^verbatim>\<open>kill_process(p)\<close> finds a non-zero byte in the slot of \<open>p\<close> and no
  \<^verbatim>\<open>store_value\<close> stores a zero byte at physical address 0, the usage byte of page 0
  is non-zero. A store of a non-zero byte at physical address 0 is allowed: it changes
  the usage byte of page 0 and leaves it non-zero.
\<close>

theorem page0_stays_allocated:
  assumes "guarded initialize_mem cs"
  shows "(\<forall>mem. run initialize_mem cs = Inr mem \<longrightarrow> mem 0 \<noteq> 0) \<and> byte_after cs 0 \<noteq> Inr 0"
proof -
  have i0: "initialize_mem 0 \<noteq> 0" by (simp add: initialize_mem_def)
  have a: "mem 0 \<noteq> 0" if "run initialize_mem cs = Inr mem" for mem
    using run_keeps_page0 [OF i0 assms that] .
  have "byte_after cs 0 \<noteq> Inr 0"
  proof (cases "run initialize_mem cs")
    case (Inl e)
    then show ?thesis by (simp add: byte_after_def)
  next
    case (Inr mem)
    with a [OF Inr] show ?thesis
      by (simp add: byte_after_def mem_read_def MEM_SIZE_def)
  qed
  with a show ?thesis by blast
qed

theorem page0_stays_allocated_witness:
  "guarded initialize_mem [NP 0 2, SB 0 0 42, SB 5 2560 7, LB 0 0, KP 0] \<and>
   byte_after [NP 0 2, SB 0 0 42, SB 5 2560 7, LB 0 0, KP 0] 0 \<noteq> Inr 0 \<and>
   byte_after [NP 0 2, SB 0 0 42, SB 5 2560 7, LB 0 0, KP 0] 0 = Inr 7"
proof -
  have g: "guarded initialize_mem [NP 0 2, SB 0 0 42, SB 5 2560 7, LB 0 0, KP 0]" by code_simp
  have v: "byte_after [NP 0 2, SB 0 0 42, SB 5 2560 7, LB 0 0, KP 0] 0 = Inr 7" by code_simp
  from page0_stays_allocated [OF g]
  have "byte_after [NP 0 2, SB 0 0 42, SB 5 2560 7, LB 0 0, KP 0] 0 \<noteq> Inr 0"
    by (rule conjunct2)
  with g v show ?thesis by blast
qed

text \<open>
  C2 as stated fails: on the initial memory \<^verbatim>\<open>kp 0\<close>, for process 0 that was never
  created, reads 0 from the slot, walks page 0 as the page table and ends with
  \<^verbatim>\<open>deallocate_page(0)\<close>. And \<^verbatim>\<open>sb 0 512 0\<close> translates, through the unmapped entry 2 of
  page 0, to physical address 0 and stores 0 there.
\<close>

theorem page0_stays_allocated_counterexample:
  "byte_after [KP 0] 0 = Inr 0 \<and> byte_after [SB 0 512 0] 0 = Inr 0"
  by code_simp

end
